theory Spec2Isabelle
  imports Main
begin

section \<open>Media items\<close>

text \<open>
  The renderer and the main process share one shape of media item
  (\<^verbatim>\<open>interface MediaItem\<close> in \<^verbatim>\<open>Slideshow.tsx\<close>, \<^verbatim>\<open>AlbumList\<close> and
  \<^verbatim>\<open>photosApi\<close>). The field \<^verbatim>\<open>id\<close> is called \<open>item_id\<close> here, because
  \<open>id\<close> is the identity function of HOL. \<^verbatim>\<open>creationTime\<close> is kept as the
  number \<^verbatim>\<open>new Date(creationTime).getTime()\<close> that the sort compares, and
  \<^verbatim>\<open>cachedAt\<close> is a \<^verbatim>\<open>Date.now()\<close> value in milliseconds.
\<close>

record MediaItem =
  item_id :: string
  baseUrl :: string
  mimeType :: string
  filename :: string
  creationTime :: int
  cachedAt :: int

section \<open>The picked-media list (AlbumList, \<^verbatim>\<open>fetchPickedMedia\<close>)\<close>

text \<open>
  \<^verbatim>\<open>
  const newItems = result.mediaItems
  const existingIds = new Set(mediaItems.map(item => item.id))
  const uniqueNewItems = newItems.filter(item => !existingIds.has(item.id))
  const mergedItems = [...mediaItems, ...uniqueNewItems]
  \<close>
\<close>

definition existingIds :: "MediaItem list \<Rightarrow> string set" where
  "existingIds mediaItems = set (map item_id mediaItems)"

definition uniqueNewItems :: "MediaItem list \<Rightarrow> MediaItem list \<Rightarrow> MediaItem list" where
  "uniqueNewItems mediaItems newItems =
     filter (\<lambda>item. item_id item \<notin> existingIds mediaItems) newItems"

definition mergedItems :: "MediaItem list \<Rightarrow> MediaItem list \<Rightarrow> MediaItem list" where
  "mergedItems mediaItems newItems = mediaItems @ uniqueNewItems mediaItems newItems"

text \<open>
  The replies of \<^verbatim>\<open>electronAPI.photos.createPickerSession\<close> and
  \<^verbatim>\<open>getPickedMedia\<close>, and the message of the error a function raises and
  catches itself (the default texts of the source are not ASCII and are
  constructors here).
\<close>

record session_reply =
  session_success :: bool
  session_id :: "string option"
  session_error :: "string option"

record picked_reply =
  success :: bool
  reply_mediaItems :: "MediaItem list option"
  reply_error :: "string option"

datatype message = Message string | SessionCreateFailed | PickedLoadFailed

text \<open>
  The state of the component: the list on screen, the loading flag, the error
  banner, the picking session, and the stored key \<^verbatim>\<open>pickedMediaItems\<close>
  (the empty list when the key is deleted). \<^verbatim>\<open>fetchPickedMedia\<close> is a
  closure, and its only caller is \<^verbatim>\<open>pollSession\<close>, which lives in the
  effect with the dependencies \<^verbatim>\<open>[sessionId, isPicking]\<close>: the function
  that runs when the picking ends is the one of the render in which the
  picking started, and the \<^verbatim>\<open>mediaItems\<close> it reads are those of that
  render. \<open>seen_mediaItems\<close> holds them.
\<close>

record album_list =
  mediaItems :: "MediaItem list"
  isLoading :: bool
  error :: "message option"
  sessionId :: "string option"
  isPicking :: bool
  pickedMediaItems :: "MediaItem list"
  seen_mediaItems :: "MediaItem list"

text \<open>\<^verbatim>\<open>result.error || '...'\<close>: a missing or empty error text gives the default.\<close>

definition error_or_default :: "message \<Rightarrow> string option \<Rightarrow> message" where
  "error_or_default fallback e =
     (case e of None \<Rightarrow> fallback
      | Some s \<Rightarrow> if s = [] then fallback else Message s)"

text \<open>
  \<^verbatim>\<open>handlePickPhotos\<close>: with a session id the picking starts, the polling
  effect runs again and its closures see the list that is on screen now.
\<close>

definition handlePickPhotos :: "session_reply \<Rightarrow> album_list \<Rightarrow> album_list" where
  "handlePickPhotos result st =
     (if \<not> session_success result \<or> session_id result = None \<or> session_id result = Some []
      then st\<lparr>error := Some (error_or_default SessionCreateFailed (session_error result)),
              isLoading := False\<rparr>
      else st\<lparr>error := None, sessionId := session_id result, isPicking := True,
              isLoading := False, seen_mediaItems := mediaItems st\<rparr>)"

text \<open>
  \<^verbatim>\<open>fetchPickedMedia\<close>, with the \<^verbatim>\<open>mediaItems\<close> its closure has captured
  as the first argument: the merge reads that list, and the result replaces
  the list on screen and the stored one.
\<close>

definition fetchPickedMedia :: "MediaItem list \<Rightarrow> picked_reply \<Rightarrow> album_list \<Rightarrow> album_list" where
  "fetchPickedMedia seen result st =
     (if \<not> success result \<or> reply_mediaItems result = None
      then st\<lparr>error := Some (error_or_default PickedLoadFailed (reply_error result)),
              isLoading := False\<rparr>
      else
        let merged = mergedItems seen (the (reply_mediaItems result))
        in st\<lparr>mediaItems := merged, pickedMediaItems := merged, isLoading := False\<rparr>)"

text \<open>
  \<^verbatim>\<open>pollSession\<close>: the interval exists while a session is being picked;
  \<open>ready\<close> is \<^verbatim>\<open>result.success && result.mediaItemsSet\<close> of the status
  request (a request that throws is logged and changes nothing, as one that is
  not ready).
\<close>

definition pollSession :: "bool \<Rightarrow> picked_reply \<Rightarrow> album_list \<Rightarrow> album_list" where
  "pollSession ready result st =
     (if sessionId st = None \<or> sessionId st = Some [] \<or> \<not> isPicking st then st
      else if \<not> ready then st
      else fetchPickedMedia (seen_mediaItems st) result (st\<lparr>isPicking := False\<rparr>))"

text \<open>
  \<^verbatim>\<open>handleDeleteItem\<close> and \<^verbatim>\<open>handleClearSelection\<close> are closures of the
  current render (the cards and the toolbar get them anew with every render).
\<close>

definition handleDeleteItem :: "string \<Rightarrow> album_list \<Rightarrow> album_list" where
  "handleDeleteItem itemId st =
     (let updatedItems = filter (\<lambda>item. item_id item \<noteq> itemId) (mediaItems st)
      in st\<lparr>mediaItems := updatedItems, pickedMediaItems := updatedItems\<rparr>)"

definition handleClearSelection :: "album_list \<Rightarrow> album_list" where
  "handleClearSelection st = st\<lparr>mediaItems := [], pickedMediaItems := []\<rparr>"

text \<open>What the user and the picker can do to the list, and a run of such events.\<close>

datatype album_event =
  PickPhotos session_reply | PollSession bool picked_reply | DeleteItem string | ClearSelection

fun album_step :: "album_event \<Rightarrow> album_list \<Rightarrow> album_list" where
  "album_step (PickPhotos result) st = handlePickPhotos result st"
| "album_step (PollSession ready result) st = pollSession ready result st"
| "album_step (DeleteItem itemId) st = handleDeleteItem itemId st"
| "album_step ClearSelection st = handleClearSelection st"

text \<open>
  The ids of the list on screen, and of the list the polling closure holds,
  are pairwise distinct; and the batch an event brings has pairwise distinct
  ids.
\<close>

definition unique_ids :: "album_list \<Rightarrow> bool" where
  "unique_ids st =
     (distinct (map item_id (mediaItems st)) \<and> distinct (map item_id (seen_mediaItems st)))"

fun distinct_batch :: "album_event \<Rightarrow> bool" where
  "distinct_batch (PollSession ready result) =
     (case reply_mediaItems result of None \<Rightarrow> True | Some newItems \<Rightarrow> distinct (map item_id newItems))"
| "distinct_batch e = True"

text \<open>A still image with the given id and locator, for the concrete runs below.\<close>

definition photo :: "string \<Rightarrow> string \<Rightarrow> MediaItem" where
  "photo i u = \<lparr>item_id = i, baseUrl = u, mimeType = ''image/jpeg'', filename = i,
                creationTime = 0, cachedAt = 0\<rparr>"

text \<open>
  For the concrete runs: the list \<open>a\<close>, \<open>b\<close> on screen, a session that
  starts, and the reply of a finished session with the given items.
\<close>

definition two_items :: album_list where
  "two_items = \<lparr>mediaItems = [photo ''a'' ''u1'', photo ''b'' ''u2''], isLoading = False,
                 error = None, sessionId = None, isPicking = False,
                 pickedMediaItems = [photo ''a'' ''u1'', photo ''b'' ''u2''],
                 seen_mediaItems = []\<rparr>"

definition session_started :: session_reply where
  "session_started = \<lparr>session_success = True, session_id = Some ''s1'', session_error = None\<rparr>"

definition picked :: "MediaItem list \<Rightarrow> picked_reply" where
  "picked newItems = \<lparr>success = True, reply_mediaItems = Some newItems, reply_error = None\<rparr>"

section \<open>The retrying fetch (\<^verbatim>\<open>PhotosApiService.fetchWithRetry\<close>)\<close>

text \<open>
  One call of the platform's \<^verbatim>\<open>fetch\<close> either rejects (a transport-level
  failure) or resolves to a response with a status and a body, whatever the
  status is. The network is a parameter: \<open>net k url\<close> is what the \<open>k\<close>-th
  call of \<^verbatim>\<open>fetch\<close> since the log was empty gets for \<open>url\<close>. The log
  records, in order, every request sent and every delay waited (in ms); the
  headers and the console output of the source take no part in the control
  flow and are left out.
\<close>

datatype 'b outcome = NetworkError string | Response nat 'b

datatype error = TransportError string | MaxRetriesExceeded | JsonError

record 'r net_log =
  requests :: "'r list"
  waits :: "nat list"

definition MAX_RETRIES :: nat where
  "MAX_RETRIES = 3"

definition INITIAL_DELAY :: nat where
  "INITIAL_DELAY = 1000"

text \<open>\<^verbatim>\<open>response.ok\<close>: the status is in the range 200 to 299.\<close>

definition ok :: "nat \<Rightarrow> bool" where
  "ok status = (200 \<le> status \<and> status \<le> 299)"

definition sent :: "'r \<Rightarrow> 'r net_log \<Rightarrow> 'r net_log" where
  "sent url s = s\<lparr>requests := requests s @ [url]\<rparr>"

definition waited :: "nat \<Rightarrow> 'r net_log \<Rightarrow> 'r net_log" where
  "waited delay s = s\<lparr>waits := waits s @ [delay]\<rparr>"

text \<open>
  The loop \<^verbatim>\<open>for (let i = 0; i < retries; i++)\<close>, with the loop variable as
  an argument. \<^verbatim>\<open>continue\<close> and the fall-through of the \<^verbatim>\<open>catch\<close> block
  are the recursive calls with \<open>i + 1\<close>; \<^verbatim>\<open>return response\<close> is \<open>Inr\<close>,
  \<^verbatim>\<open>throw\<close> is \<open>Inl\<close>.
\<close>

function fetchLoop ::
  "(nat \<Rightarrow> 'r \<Rightarrow> 'b outcome) \<Rightarrow> 'r \<Rightarrow> nat \<Rightarrow> nat \<Rightarrow> 'r net_log
     \<Rightarrow> (error + nat \<times> 'b) \<times> 'r net_log" where
  "fetchLoop net url retries i s =
     (if i < retries then
        (case net (length (requests s)) url of
           Response status body \<Rightarrow>
             if status = 429 then
               fetchLoop net url retries (i + 1) (waited (INITIAL_DELAY * 2 ^ i) (sent url s))
             else if \<not> ok status \<and> status \<ge> 500 then
               fetchLoop net url retries (i + 1) (waited (INITIAL_DELAY * 2 ^ i) (sent url s))
             else (Inr (status, body), sent url s)
         | NetworkError e \<Rightarrow>
             if i = retries - 1 then (Inl (TransportError e), sent url s)
             else
               fetchLoop net url retries (i + 1) (waited (INITIAL_DELAY * 2 ^ i) (sent url s)))
      else (Inl MaxRetriesExceeded, s))"
  by pat_completeness auto
termination
  by (relation "measure (\<lambda>(net, url, retries, i, s). retries - i)") auto

definition fetchWithRetry ::
  "(nat \<Rightarrow> 'r \<Rightarrow> 'b outcome) \<Rightarrow> 'r \<Rightarrow> nat \<Rightarrow> 'r net_log
     \<Rightarrow> (error + nat \<times> 'b) \<times> 'r net_log" where
  "fetchWithRetry net url retries s = fetchLoop net url retries 0 s"

text \<open>What this call added to the log: its attempts and its delays.\<close>

definition attempts :: "(nat \<Rightarrow> 'r \<Rightarrow> 'b outcome) \<Rightarrow> 'r \<Rightarrow> nat \<Rightarrow> 'r net_log \<Rightarrow> nat" where
  "attempts net url retries s =
     length (requests (snd (fetchWithRetry net url retries s))) - length (requests s)"

definition delays :: "(nat \<Rightarrow> 'r \<Rightarrow> 'b outcome) \<Rightarrow> 'r \<Rightarrow> nat \<Rightarrow> 'r net_log \<Rightarrow> nat list" where
  "delays net url retries s =
     drop (length (waits s)) (waits (snd (fetchWithRetry net url retries s)))"

text \<open>The outcome of the \<open>j\<close>-th attempt of a call that starts with log \<open>s\<close>.\<close>

definition attempt :: "(nat \<Rightarrow> 'r \<Rightarrow> 'b outcome) \<Rightarrow> 'r \<Rightarrow> 'r net_log \<Rightarrow> nat \<Rightarrow> 'b outcome" where
  "attempt net url s j = net (length (requests s) + j) url"

definition rate_limited :: "'b outcome \<Rightarrow> bool" where
  "rate_limited out = (case out of Response status body \<Rightarrow> status = 429 | NetworkError e \<Rightarrow> False)"

definition no_log :: "'r net_log" where
  "no_log = \<lparr>requests = [], waits = []\<rparr>"

text \<open>Networks for the concrete runs: one answer for ever, or a script of answers.\<close>

definition always :: "'b outcome \<Rightarrow> nat \<Rightarrow> 'r \<Rightarrow> 'b outcome" where
  "always out k url = out"

definition script :: "'b outcome list \<Rightarrow> 'b outcome \<Rightarrow> nat \<Rightarrow> 'r \<Rightarrow> 'b outcome" where
  "script outs rest k url = (if k < length outs then outs ! k else rest)"

text \<open>
  Vocabulary for the runs of the loop: whether attempt \<open>i\<close> of \<open>retries\<close>
  with this outcome is followed by a delay and the next round of the loop, and
  what the call gives when the attempt is not.
\<close>

definition retried :: "'b outcome \<Rightarrow> nat \<Rightarrow> nat \<Rightarrow> bool" where
  "retried out retries i =
     (case out of Response status body \<Rightarrow> status = 429 \<or> (\<not> ok status \<and> status \<ge> 500)
      | NetworkError e \<Rightarrow> i \<noteq> retries - 1)"

definition settled :: "'b outcome \<Rightarrow> error + nat \<times> 'b" where
  "settled out = (case out of Response status body \<Rightarrow> Inr (status, body)
      | NetworkError e \<Rightarrow> Inl (TransportError e))"

section \<open>Refreshing the locators (\<^verbatim>\<open>refreshBaseUrls\<close>)\<close>

text \<open>
  \<^verbatim>\<open>BASE_URL_TTL\<close> and \<^verbatim>\<open>isBaseUrlExpired\<close> of the service; \<open>now\<close> is
  \<^verbatim>\<open>Date.now()\<close>. No function of the repository calls
  \<^verbatim>\<open>isBaseUrlExpired\<close>.
\<close>

definition BASE_URL_TTL :: int where
  "BASE_URL_TTL = 50 * 60 * 1000"

definition isBaseUrlExpired :: "int \<Rightarrow> int \<Rightarrow> bool" where
  "isBaseUrlExpired now cachedAt' = (now - cachedAt' > BASE_URL_TTL)"

text \<open>
  The body of a \<^verbatim>\<open>batchGet\<close> response: \<^verbatim>\<open>response.json()\<close> rejects
  (\<open>Unparsable\<close>) or gives an object whose \<^verbatim>\<open>mediaItemResults\<close> may be
  missing; each result may lack its \<^verbatim>\<open>mediaItem\<close>, which is otherwise an id
  with its new base URL. The request is identified by the ids of its batch
  (the URL is built from them alone).
\<close>

datatype body = Unparsable | Data "(string \<times> string) option list option"

text \<open>
  \<^verbatim>\<open>for (const result of data.mediaItemResults)
    if (result.mediaItem) urlMap.set(result.mediaItem.id, result.mediaItem.baseUrl)\<close>
\<close>

fun collect :: "(string \<times> string) option list \<Rightarrow> (string \<rightharpoonup> string) \<Rightarrow> (string \<rightharpoonup> string)" where
  "collect [] urlMap = urlMap"
| "collect (None # results) urlMap = collect results urlMap"
| "collect (Some (i, u) # results) urlMap = collect results (urlMap(i \<mapsto> u))"

text \<open>
  The loop \<^verbatim>\<open>for (let i = 0; i < mediaItemIds.length; i += 50)\<close> of the
  service. Nothing in the loop catches: an error of \<^verbatim>\<open>fetchWithRetry\<close> or of
  \<^verbatim>\<open>response.json()\<close> leaves the loop and the function.
\<close>

function batchLoop ::
  "(nat \<Rightarrow> string list \<Rightarrow> body outcome) \<Rightarrow> string list \<Rightarrow> nat \<Rightarrow> (string \<rightharpoonup> string)
     \<Rightarrow> string list net_log \<Rightarrow> (error + (string \<rightharpoonup> string)) \<times> string list net_log" where
  "batchLoop net mediaItemIds i urlMap s =
     (if i < length mediaItemIds then
        (let batch = take 50 (drop i mediaItemIds) in
         case fetchWithRetry net batch MAX_RETRIES s of
           (Inl e, s') \<Rightarrow> (Inl e, s')
         | (Inr (status, Unparsable), s') \<Rightarrow> (Inl JsonError, s')
         | (Inr (status, Data None), s') \<Rightarrow> batchLoop net mediaItemIds (i + 50) urlMap s'
         | (Inr (status, Data (Some results)), s') \<Rightarrow>
             batchLoop net mediaItemIds (i + 50) (collect results urlMap) s')
      else (Inr urlMap, s))"
  by pat_completeness auto
termination
  by (relation "measure (\<lambda>(net, ids, i, urlMap, s). length ids - i)") auto

text \<open>
  The second half of the service function rewrites the items of its own
  store: \<^verbatim>\<open>if (newUrl) return { ...item, baseUrl: newUrl, cachedAt: Date.now() }\<close>.
  A missing and an empty URL are both falsy.
\<close>

definition updatedItems :: "int \<Rightarrow> (string \<rightharpoonup> string) \<Rightarrow> MediaItem list \<Rightarrow> MediaItem list" where
  "updatedItems now urlMap cachedItems =
     map (\<lambda>item. case urlMap (item_id item) of
                   None \<Rightarrow> item
                 | Some newUrl \<Rightarrow>
                     if newUrl = [] then item else item\<lparr>baseUrl := newUrl, cachedAt := now\<rparr>)
         cachedItems"

record photos_service =
  stored :: "MediaItem list"
  log :: "string list net_log"

definition photosApi_refreshBaseUrls ::
  "(nat \<Rightarrow> string list \<Rightarrow> body outcome) \<Rightarrow> int \<Rightarrow> string list \<Rightarrow> photos_service
     \<Rightarrow> (error + (string \<rightharpoonup> string)) \<times> photos_service" where
  "photosApi_refreshBaseUrls net now mediaItemIds sv =
     (case batchLoop net mediaItemIds 0 Map.empty (log sv) of
        (Inl e, s') \<Rightarrow> (Inl e, sv\<lparr>log := s'\<rparr>)
      | (Inr urlMap, s') \<Rightarrow>
          (Inr urlMap, sv\<lparr>stored := updatedItems now urlMap (stored sv), log := s'\<rparr>))"

text \<open>
  The handler of \<^verbatim>\<open>photos:refresh-urls\<close> in the main process: without a
  token it answers \<^verbatim>\<open>{ success: false }\<close>, and it turns an error of the
  service into the same kind of answer.
\<close>

datatype refresh_failure = NotAuthenticated | Raised error

datatype refresh_reply = Urls "string \<rightharpoonup> string" | Failed refresh_failure

definition refresh_urls ::
  "string option \<Rightarrow> (nat \<Rightarrow> string list \<Rightarrow> body outcome) \<Rightarrow> int \<Rightarrow> string list \<Rightarrow> photos_service
     \<Rightarrow> refresh_reply \<times> photos_service" where
  "refresh_urls token net now mediaItemIds sv =
     (if token = None \<or> token = Some [] then (Failed NotAuthenticated, sv)
      else case photosApi_refreshBaseUrls net now mediaItemIds sv of
             (Inl e, sv') \<Rightarrow> (Failed (Raised e), sv')
           | (Inr urlMap, sv') \<Rightarrow> (Urls urlMap, sv'))"

text \<open>
  The renderer (\<^verbatim>\<open>Slideshow.tsx\<close>): every id of the items it is given goes
  into the request; there is no test of \<^verbatim>\<open>cachedAt\<close>. On success every item
  of the current list gets \<^verbatim>\<open>baseUrl: result.urls[item.id] || item.baseUrl\<close>
  and \<^verbatim>\<open>cachedAt: Date.now()\<close>; on failure the list stays as it is.
  \<open>nowMain\<close> and \<open>nowRenderer\<close> are the two readings of the clock.
\<close>

definition refreshed :: "int \<Rightarrow> (string \<rightharpoonup> string) \<Rightarrow> MediaItem list \<Rightarrow> MediaItem list" where
  "refreshed now urls prev =
     map (\<lambda>item. item\<lparr>baseUrl := (case urls (item_id item) of
                                     None \<Rightarrow> baseUrl item
                                   | Some u \<Rightarrow> if u = [] then baseUrl item else u),
                      cachedAt := now\<rparr>)
         prev"

definition Slideshow_refreshBaseUrls ::
  "string option \<Rightarrow> (nat \<Rightarrow> string list \<Rightarrow> body outcome) \<Rightarrow> int \<Rightarrow> int \<Rightarrow> MediaItem list
     \<Rightarrow> MediaItem list \<times> photos_service \<Rightarrow> MediaItem list \<times> photos_service" where
  "Slideshow_refreshBaseUrls token net nowMain nowRenderer items st =
     (let ids = map item_id items in
      case refresh_urls token net nowMain ids (snd st) of
        (Urls urls, sv') \<Rightarrow> (refreshed nowRenderer urls (fst st), sv')
      | (Failed e, sv') \<Rightarrow> (fst st, sv'))"

text \<open>The requests a call added to the log of the service.\<close>

definition new_requests :: "photos_service \<Rightarrow> photos_service \<Rightarrow> string list list" where
  "new_requests sv sv' = drop (length (requests (log sv))) (requests (log sv'))"

text \<open>
  For the concrete runs: an upstream that knows a new locator for every id
  it is asked about, 52 distinct ids (\<open>aa\<close> to \<open>bz\<close>, so the second batch
  of a refresh is \<open>by\<close>, \<open>bz\<close>), and the minute in milliseconds.
\<close>

definition fresh_urls :: "nat \<Rightarrow> string list \<Rightarrow> body outcome" where
  "fresh_urls k batch = Response 200 (Data (Some (map (\<lambda>i. Some (i, ''new-'' @ i)) batch)))"

text \<open>An upstream whose first three calls fail in transport and which serves every later call.\<close>

definition flaky :: "nat \<Rightarrow> string list \<Rightarrow> body outcome" where
  "flaky k batch = (if k < 3 then NetworkError ''down'' else fresh_urls k batch)"

definition ids52 :: "string list" where
  "ids52 = concat (map (\<lambda>a. map (\<lambda>b. [a, b]) ''abcdefghijklmnopqrstuvwxyz'') ''ab'')"

definition minutes :: "int \<Rightarrow> int" where
  "minutes n = n * 60 * 1000"

text \<open>The same item with another time of issue.\<close>

definition aged :: "(MediaItem \<Rightarrow> int) \<Rightarrow> MediaItem \<Rightarrow> MediaItem" where
  "aged t item = item\<lparr>cachedAt := t item\<rparr>"

definition idle_service :: photos_service where
  "idle_service = \<lparr>stored = [], log = no_log\<rparr>"

section \<open>The image cache on disk (\<^verbatim>\<open>cacheImage\<close>, \<^verbatim>\<open>cleanupCacheIfNeeded\<close>)\<close>

text \<open>
  The cache directory is the list of its files in the order
  \<^verbatim>\<open>readdirSync\<close> gives them, each with the \<^verbatim>\<open>size\<close> and the
  \<^verbatim>\<open>mtimeMs\<close> that \<^verbatim>\<open>statSync\<close> reports. The path is the file name (the
  directory is the same for all). Other writers use the same directory (the
  image proxy of the main process), so the functions are stated for every
  directory, not only for those \<^verbatim>\<open>cacheImage\<close> built.
\<close>

record cache_file =
  file_path :: string
  file_size :: nat
  mtime :: nat

type_synonym cache_dir = "cache_file list"

definition MAX_CACHE_SIZE :: nat where
  "MAX_CACHE_SIZE = 500 * 1024 * 1024"

text \<open>\<^verbatim>\<open>getCacheStats().diskSize\<close>, and the \<^verbatim>\<open>totalSize\<close> of the cleanup.\<close>

definition diskSize :: "cache_dir \<Rightarrow> nat" where
  "diskSize d = sum_list (map file_size d)"

definition existsSync :: "string \<Rightarrow> cache_dir \<Rightarrow> bool" where
  "existsSync p d = (p \<in> set (map file_path d))"

text \<open>
  \<^verbatim>\<open>fs.unlinkSync\<close> removes the file or throws; \<open>locked p\<close> says that it
  throws for \<open>p\<close> (\<open>None\<close>). The cleanup ignores the exception.
\<close>

definition unlinkSync :: "(string \<Rightarrow> bool) \<Rightarrow> string \<Rightarrow> cache_dir \<Rightarrow> cache_dir option" where
  "unlinkSync locked p d = (if locked p then None else Some (filter (\<lambda>f. file_path f \<noteq> p) d))"

text \<open>
  The loop over the sorted \<^verbatim>\<open>fileStats\<close>:
  \<^verbatim>\<open>if (totalSize - deletedSize <= targetSize) break\<close> with
  \<^verbatim>\<open>targetSize = MAX_CACHE_SIZE * 0.7\<close>. The comparison with seven tenths of
  the capacity is written without the fraction, \<open>10 * x \<le> 7 * capacity\<close>; the
  source computes the product in floating point, which is exact for its
  constant (\<open>367001600\<close>) and for the capacity \<open>1000\<close> of the scenario. The
  difference is never negative in the source (only listed files are deleted),
  and where it would be, both the source and the truncating subtraction of
  \<open>nat\<close> leave the loop.
\<close>

fun deleteLoop ::
  "(string \<Rightarrow> bool) \<Rightarrow> nat \<Rightarrow> nat \<Rightarrow> nat \<Rightarrow> cache_file list \<Rightarrow> cache_dir \<Rightarrow> cache_dir" where
  "deleteLoop locked capacity totalSize deletedSize [] d = d"
| "deleteLoop locked capacity totalSize deletedSize (file # fileStats) d =
     (if 10 * (totalSize - deletedSize) \<le> 7 * capacity then d
      else case unlinkSync locked (file_path file) d of
             None \<Rightarrow> deleteLoop locked capacity totalSize deletedSize fileStats d
           | Some d' \<Rightarrow>
               deleteLoop locked capacity totalSize (deletedSize + file_size file) fileStats d')"

text \<open>
  \<^verbatim>\<open>cleanupCacheIfNeeded\<close>. The capacity is an argument here; the source has
  the one constant \<^verbatim>\<open>MAX_CACHE_SIZE\<close>. \<^verbatim>\<open>fileStats.sort((a, b) => a.mtime - b.mtime)\<close>
  is a stable sort by modification time, oldest first, as \<open>sort_key\<close> is.
  The test is made on the size already on disk, before the new file exists.
  \<^verbatim>\<open>readdirSync\<close> and \<^verbatim>\<open>statSync\<close> are taken to succeed; when one of
  them throws, the source logs the error and removes nothing.
\<close>

definition cleanupCacheIfNeeded :: "(string \<Rightarrow> bool) \<Rightarrow> nat \<Rightarrow> cache_dir \<Rightarrow> cache_dir" where
  "cleanupCacheIfNeeded locked capacity d =
     (let totalSize = diskSize d; fileStats = d in
      if totalSize > capacity
      then deleteLoop locked capacity totalSize 0 (sort_key mtime fileStats) d
      else d)"

text \<open>
  \<^verbatim>\<open>mediaItem.mimeType.split('/')[1] || 'jpg'\<close>: the text between the first
  and the second slash, or \<open>jpg\<close> when there is no slash or nothing there.
\<close>

definition extension :: "string \<Rightarrow> string" where
  "extension m =
     (case dropWhile (\<lambda>c. c \<noteq> CHR ''/'') m of
        [] \<Rightarrow> ''jpg''
      | slash # rest \<Rightarrow>
          (let e = takeWhile (\<lambda>c. c \<noteq> CHR ''/'') rest in if e = [] then ''jpg'' else e))"

definition localPath :: "MediaItem \<Rightarrow> string" where
  "localPath mediaItem = item_id mediaItem @ ''.'' @ extension (mimeType mediaItem)"

text \<open>
  \<^verbatim>\<open>cacheImage\<close>: a file that exists is returned as it is (its \<^verbatim>\<open>mtime\<close> is
  not touched); otherwise the cleanup runs and then the download. \<open>download\<close>
  is what the request gives: the number of bytes written when the stream
  finishes, or \<open>None\<close> when the request fails, in which case the file is
  unlinked again and the promise is rejected. \<open>now\<close> is the time the file is
  written.
\<close>

datatype cache_error = DownloadFailed

definition cacheImage ::
  "(string \<Rightarrow> bool) \<Rightarrow> nat \<Rightarrow> nat \<Rightarrow> nat option \<Rightarrow> MediaItem \<Rightarrow> cache_dir
     \<Rightarrow> (cache_error + string) \<times> cache_dir" where
  "cacheImage locked capacity now download mediaItem d =
     (if existsSync (localPath mediaItem) d then (Inr (localPath mediaItem), d)
      else
        let d' = cleanupCacheIfNeeded locked capacity d in
        case download of
          None \<Rightarrow> (Inl DownloadFailed, d')
        | Some bytes \<Rightarrow>
            (Inr (localPath mediaItem),
             d' @ [\<lparr>file_path = localPath mediaItem, file_size = bytes, mtime = now\<rparr>]))"

text \<open>
  A run of puts: each entry is the item, the time and the number of bytes
  its download writes. No unlink fails in these runs.
\<close>

definition unlocked :: "string \<Rightarrow> bool" where
  "unlocked p = False"

fun puts :: "nat \<Rightarrow> (MediaItem \<times> nat \<times> nat) list \<Rightarrow> cache_dir \<Rightarrow> cache_dir" where
  "puts capacity [] d = d"
| "puts capacity ((mediaItem, now, bytes) # rest) d =
     puts capacity rest (snd (cacheImage unlocked capacity now (Some bytes) mediaItem d))"

definition entry :: "string \<Rightarrow> nat \<Rightarrow> nat \<Rightarrow> cache_file" where
  "entry i bytes t = \<lparr>file_path = i @ ''.jpeg'', file_size = bytes, mtime = t\<rparr>"

text \<open>The directory without the \<open>k\<close> files that come first in the order of the cleanup.\<close>

definition keep_newest :: "nat \<Rightarrow> cache_dir \<Rightarrow> cache_dir" where
  "keep_newest k d = filter (\<lambda>f. f \<in> set (drop k (sort_key mtime d))) d"

text \<open>
  The scenario of the specification: four entries of 300 bytes, written in
  the order A, B, C, D; and the same with entries of 150 MB, for the capacity
  the source has.
\<close>

definition scenario :: "nat \<Rightarrow> (MediaItem \<times> nat \<times> nat) list" where
  "scenario bytes = [(photo ''A'' ''u'', 1, bytes), (photo ''B'' ''u'', 2, bytes),
                     (photo ''C'' ''u'', 3, bytes), (photo ''D'' ''u'', 4, bytes)]"

section \<open>The schedule check of the main process (\<^verbatim>\<open>checkSchedule\<close>)\<close>

text \<open>
  The module variables of \<^verbatim>\<open>main.ts\<close> that the check reads and writes, and
  the \<^verbatim>\<open>schedule\<close> part of the stored settings (\<open>None\<close> when the settings
  or the schedule are missing).
\<close>

record main_process =
  mainWindow :: bool
  lastScheduleState :: "bool option"
  isSlideshowRunning :: bool

record schedule =
  enabled :: bool
  timeGrid :: "bool list list"

text \<open>
  \<^verbatim>\<open>let dayIndex = now.getDay() - 1; if (dayIndex < 0) dayIndex = 6\<close> and
  \<^verbatim>\<open>timeGrid[dayIndex]?.[hourIndex] ?? false\<close>: a row or a cell that does not
  exist counts as false.
\<close>

definition dayIndex :: "int \<Rightarrow> int" where
  "dayIndex getDay = (let d = getDay - 1 in if d < 0 then 6 else d)"

definition shouldPlayAt :: "schedule \<Rightarrow> int \<Rightarrow> nat \<Rightarrow> bool" where
  "shouldPlayAt sch getDay getHours =
     (let d = dayIndex getDay in
      if 0 \<le> d \<and> nat d < length (timeGrid sch)
      then (let row = timeGrid sch ! nat d in
            if getHours < length row then row ! getHours else False)
      else False)"

text \<open>
  The result is the new state of the module and the messages sent on
  \<^verbatim>\<open>schedule:state-changed\<close>, in order. The two \<^verbatim>\<open>if\<close> statements of the
  source follow each other, they are not alternatives.
\<close>

definition checkSchedule ::
  "schedule option \<Rightarrow> int \<Rightarrow> nat \<Rightarrow> main_process \<Rightarrow> main_process \<times> bool list" where
  "checkSchedule settings getDay getHours m =
     (if \<not> mainWindow m then (m, [])
      else case settings of
        None \<Rightarrow> (m\<lparr>lastScheduleState := None\<rparr>, [])
      | Some sch \<Rightarrow>
          if \<not> enabled sch then (m\<lparr>lastScheduleState := None\<rparr>, [])
          else
            let shouldPlay = shouldPlayAt sch getDay getHours;
                stop = (if isSlideshowRunning m \<and> \<not> shouldPlay then [False] else [])
            in if Some shouldPlay \<noteq> lastScheduleState m
               then (m\<lparr>lastScheduleState := Some shouldPlay\<rparr>, stop @ [shouldPlay])
               else (m, stop))"

text \<open>
  The listener of the renderer (\<^verbatim>\<open>App.tsx\<close>): on true it opens the slideshow
  when picked items are stored and the slideshow is not open; on false it
  leaves the slideshow when it is open. The slideshow page reports
  \<^verbatim>\<open>slideshow.setState(true)\<close> when it starts and \<^verbatim>\<open>setState(false)\<close>
  when it is left, which is what \<open>isSlideshowRunning\<close> holds. A message is
  handled to its end before the next one.
\<close>

record app =
  main :: main_process
  onSlideshow :: bool
  hasPicked :: bool

definition scheduleStateChanged :: "bool \<Rightarrow> app \<Rightarrow> app" where
  "scheduleStateChanged shouldPlay a =
     (if shouldPlay then
        (if hasPicked a \<and> \<not> onSlideshow a
         then a\<lparr>onSlideshow := True, main := (main a)\<lparr>isSlideshowRunning := True\<rparr>\<rparr>
         else a)
      else
        (if onSlideshow a
         then a\<lparr>onSlideshow := False, main := (main a)\<lparr>isSlideshowRunning := False\<rparr>\<rparr>
         else a))"

text \<open>One tick of the minute timer: the check, then the renderer handles what was sent.\<close>

definition scheduleTick :: "schedule option \<Rightarrow> int \<Rightarrow> nat \<Rightarrow> app \<Rightarrow> app \<times> bool list" where
  "scheduleTick settings getDay getHours a =
     (let r = checkSchedule settings getDay getHours (main a)
      in (fold scheduleStateChanged (snd r) (a\<lparr>main := fst r\<rparr>), snd r))"

text \<open>The engine is showing, or idle.\<close>

definition showing :: "app \<Rightarrow> bool" where
  "showing a = (onSlideshow a \<and> isSlideshowRunning (main a))"

definition idle :: "app \<Rightarrow> bool" where
  "idle a = (\<not> onSlideshow a \<and> \<not> isSlideshowRunning (main a))"

text \<open>For the concrete runs: a schedule that never plays, and a slideshow running inside its schedule.\<close>

definition never :: schedule where
  "never = \<lparr>enabled = True, timeGrid = replicate 7 (replicate 24 False)\<rparr>"

definition playing_app :: app where
  "playing_app = \<lparr>main = \<lparr>mainWindow = True, lastScheduleState = Some True, isSlideshowRunning = True\<rparr>,
                  onSlideshow = True, hasPicked = True\<rparr>"

section \<open>The slideshow (\<^verbatim>\<open>Slideshow.tsx\<close>)\<close>

text \<open>
  The state of the component that the playback functions read and write,
  with the timeouts that are pending (each with the time it is due, in ms)
  and a clock. The functions of the component are closures: each is created by
  a render and sees the values of that render. \<open>render\<close> holds the values a
  closure has captured; \<open>keydown\<close> is what the listener registered by
  \<^verbatim>\<open>useEffect(..., [mediaItems.length])\<close> has captured, which React renews
  only when the number of items changes.
\<close>

datatype TransitionEffect = NoEffect | Fade | Slide | Zoom

datatype timeout = SetCurrentIndex int nat | EndTransition

record render =
  seen_currentIndex :: int
  seen_isTransitioning :: bool
  seen_isPlaying :: bool
  seen_transitionEffect :: TransitionEffect
  seen_length :: nat

record slideshow =
  mediaItems :: "MediaItem list"
  currentIndex :: int
  previousIndex :: "int option"
  isPlaying :: bool
  isTransitioning :: bool
  transitionEffect :: TransitionEffect
  clock :: nat
  timeouts :: "(nat \<times> timeout) list"
  keydown :: render

text \<open>The values a closure created by the current render sees.\<close>

definition current :: "slideshow \<Rightarrow> render" where
  "current st = \<lparr>seen_currentIndex = currentIndex st, seen_isTransitioning = isTransitioning st,
                 seen_isPlaying = isPlaying st, seen_transitionEffect = transitionEffect st,
                 seen_length = length (mediaItems st)\<rparr>"

text \<open>
  The remainder \<^verbatim>\<open>%\<close> of JavaScript has the sign of the dividend. For a
  divisor 0 it is \<^verbatim>\<open>NaN\<close>; the only caller that can pass a length 0 hands
  the result to \<^verbatim>\<open>transitionTo\<close>, which returns before using it when the
  length is 0, so the value here (the dividend) is never looked at.
\<close>

definition js_rem :: "int \<Rightarrow> int \<Rightarrow> int" where
  "js_rem a b = (if 0 \<le> a then a mod b else - ((- a) mod b))"

definition setTimeout :: "timeout \<Rightarrow> nat \<Rightarrow> slideshow \<Rightarrow> slideshow" where
  "setTimeout callback delay st = st\<lparr>timeouts := timeouts st @ [(clock st + delay, callback)]\<rparr>"

text \<open>
  \<^verbatim>\<open>transitionTo\<close>: the guard and \<^verbatim>\<open>setPreviousIndex(currentIndex)\<close> use the
  captured values; the state updates and the timeout act on the state.
\<close>

definition transitionTo :: "render \<Rightarrow> int \<Rightarrow> slideshow \<Rightarrow> slideshow" where
  "transitionTo r newIndex st =
     (if seen_isTransitioning r \<or> seen_length r = 0 then st
      else
        let transitionDuration = (if seen_transitionEffect r = NoEffect then 0 else 500)
        in setTimeout (SetCurrentIndex newIndex transitionDuration) 50
             (st\<lparr>isTransitioning := True, previousIndex := Some (seen_currentIndex r)\<rparr>))"

text \<open>The two nested callbacks of \<^verbatim>\<open>transitionTo\<close>.\<close>

fun callback :: "timeout \<Rightarrow> slideshow \<Rightarrow> slideshow" where
  "callback (SetCurrentIndex newIndex transitionDuration) st =
     setTimeout EndTransition transitionDuration (st\<lparr>currentIndex := newIndex\<rparr>)"
| "callback EndTransition st = st\<lparr>previousIndex := None, isTransitioning := False\<rparr>"

text \<open>
  The timeout that runs next is the one that is due first, the one set
  earlier among those due at the same time; \<open>pick\<close> gives it and the others.
\<close>

fun pick :: "(nat \<times> 'a) list \<Rightarrow> ((nat \<times> 'a) \<times> (nat \<times> 'a) list) option" where
  "pick [] = None"
| "pick (t # ts) =
     (case pick ts of
        None \<Rightarrow> Some (t, [])
      | Some (u, rest) \<Rightarrow> if fst t \<le> fst u then Some (t, ts) else Some (u, t # rest))"

definition runTimeout :: "slideshow \<Rightarrow> slideshow" where
  "runTimeout st =
     (case pick (timeouts st) of
        None \<Rightarrow> st
      | Some ((due, cb), rest) \<Rightarrow> callback cb (st\<lparr>clock := max (clock st) due, timeouts := rest\<rparr>))"

definition isCurrentVideo :: "slideshow \<Rightarrow> bool" where
  "isCurrentVideo st =
     (0 \<le> currentIndex st \<and> nat (currentIndex st) < length (mediaItems st)
      \<and> take 6 (mimeType (mediaItems st ! nat (currentIndex st))) = ''video/'')"

text \<open>
  The interval of the auto-play effect exists only while the condition of the
  effect holds, and its callback is a closure of the render that set it up.
\<close>

definition timerFire :: "slideshow \<Rightarrow> slideshow" where
  "timerFire st =
     (if isPlaying st \<and> length (mediaItems st) > 0 \<and> \<not> isTransitioning st \<and> \<not> isCurrentVideo st
      then transitionTo (current st)
             (js_rem (currentIndex st + 1) (int (length (mediaItems st)))) st
      else st)"

definition handleVideoEnd :: "render \<Rightarrow> slideshow \<Rightarrow> slideshow" where
  "handleVideoEnd r st =
     (if seen_isPlaying r \<and> seen_length r > 0
      then transitionTo r (js_rem (seen_currentIndex r + 1) (int (seen_length r))) st
      else st)"

definition handleLoadTimeout :: "render \<Rightarrow> slideshow \<Rightarrow> slideshow" where
  "handleLoadTimeout r st =
     (if seen_length r > 0
      then transitionTo r (js_rem (seen_currentIndex r + 1) (int (seen_length r))) st
      else st)"

definition goToNext :: "render \<Rightarrow> slideshow \<Rightarrow> slideshow" where
  "goToNext r st = transitionTo r (js_rem (seen_currentIndex r + 1) (int (seen_length r))) st"

definition goToPrevious :: "render \<Rightarrow> slideshow \<Rightarrow> slideshow" where
  "goToPrevious r st =
     transitionTo r (js_rem (seen_currentIndex r - 1 + int (seen_length r)) (int (seen_length r))) st"

definition togglePlayPause :: "slideshow \<Rightarrow> slideshow" where
  "togglePlayPause st = st\<lparr>isPlaying := \<not> isPlaying st\<rparr>"

text \<open>
  What can happen to the component. The timer, the two events of the media
  element and the buttons call closures of the current render; the two arrow
  keys call the closures the keydown listener has captured.
\<close>

datatype event =
  TimerFire | VideoEnd | LoadTimeout | ClickNext | ClickPrevious
  | KeyArrowRight | KeyArrowLeft | TogglePause | Timeout

fun handle :: "event \<Rightarrow> slideshow \<Rightarrow> slideshow" where
  "handle TimerFire st = timerFire st"
| "handle VideoEnd st = handleVideoEnd (current st) st"
| "handle LoadTimeout st = handleLoadTimeout (current st) st"
| "handle ClickNext st = goToNext (current st) st"
| "handle ClickPrevious st = goToPrevious (current st) st"
| "handle KeyArrowRight st = goToNext (keydown st) st"
| "handle KeyArrowLeft st = goToPrevious (keydown st) st"
| "handle TogglePause st = togglePlayPause st"
| "handle Timeout st = runTimeout st"

text \<open>
  \<^verbatim>\<open>loadMediaItems\<close>: the order of the settings is applied to a copy of the
  stored items. \<^verbatim>\<open>sort\<close> is stable; the result of sorting with the random
  comparator depends on the engine and is the parameter \<open>shuffle\<close>. The
  render in which the items appear has index 0 and no transition, and it is
  the one whose closures the keydown listener keeps.
\<close>

datatype photoOrder = Latest | Oldest | Random | Unset

definition sortedItems :: "photoOrder \<Rightarrow> (MediaItem list \<Rightarrow> MediaItem list) \<Rightarrow> MediaItem list \<Rightarrow> MediaItem list" where
  "sortedItems order shuffle allMediaItems =
     (case order of
        Latest \<Rightarrow> sort_key (\<lambda>item. - creationTime item) allMediaItems
      | Oldest \<Rightarrow> sort_key creationTime allMediaItems
      | Random \<Rightarrow> shuffle allMediaItems
      | Unset \<Rightarrow> allMediaItems)"

definition loaded :: "TransitionEffect \<Rightarrow> MediaItem list \<Rightarrow> slideshow" where
  "loaded effect items =
     \<lparr>mediaItems = items, currentIndex = 0, previousIndex = None, isPlaying = True,
      isTransitioning = False, transitionEffect = effect, clock = 0, timeouts = [],
      keydown = \<lparr>seen_currentIndex = 0, seen_isTransitioning = False, seen_isPlaying = True,
                 seen_transitionEffect = effect, seen_length = length items\<rparr>\<rparr>"

definition loadMediaItems ::
  "photoOrder \<Rightarrow> (MediaItem list \<Rightarrow> MediaItem list) \<Rightarrow> TransitionEffect \<Rightarrow> MediaItem list \<Rightarrow> slideshow" where
  "loadMediaItems order shuffle effect allMediaItems =
     loaded effect (sortedItems order shuffle allMediaItems)"

text \<open>
  A completed advance: the trigger and the two timeouts it leads to. The
  cursor is valid when it is an index of the list; the component is at rest
  when no transition is under way.
\<close>

definition completed :: "event \<Rightarrow> slideshow \<Rightarrow> slideshow" where
  "completed e st = runTimeout (runTimeout (handle e st))"

definition at_rest :: "slideshow \<Rightarrow> bool" where
  "at_rest st = (\<not> isTransitioning st \<and> timeouts st = [])"

definition in_range :: "slideshow \<Rightarrow> bool" where
  "in_range st = (0 \<le> currentIndex st \<and> currentIndex st < int (length (mediaItems st)))"

text \<open>Three photos, for the concrete runs.\<close>

definition three :: "MediaItem list" where
  "three = [photo ''p0'' ''u0'', photo ''p1'' ''u1'', photo ''p2'' ''u2'']"

text \<open>
  Three photos in the order of their dates, the timer has advanced to the
  second one, fired again, and the first timeout of that transition has run:
  the third photo is on screen and the transition is under way.
\<close>

definition mid_transition :: slideshow where
  "mid_transition =
     handle Timeout (handle TimerFire (completed TimerFire (loadMediaItems Oldest id Fade three)))"

chapter \<open>Properties\<close>

section \<open>Properties of the picked-media list\<close>

lemma uniqueNewItems_ids:
  "set (map item_id (uniqueNewItems old new)) = set (map item_id new) - set (map item_id old)"
  by (auto simp: uniqueNewItems_def existingIds_def)

lemma uniqueNewItems_distinct:
  "distinct (map item_id new) \<Longrightarrow> distinct (map item_id (uniqueNewItems old new))"
  by (simp add: uniqueNewItems_def distinct_map_filter)

lemma mergedItems_distinct:
  "distinct (map item_id old) \<Longrightarrow> distinct (map item_id new) \<Longrightarrow>
   distinct (map item_id (mergedItems old new))"
  using uniqueNewItems_distinct [of new old] uniqueNewItems_ids [of old new]
  by (auto simp: mergedItems_def)

lemma fetchPickedMedia_lists:
  "album_list.mediaItems (fetchPickedMedia seen r st)
     = (if \<not> success r \<or> reply_mediaItems r = None then album_list.mediaItems st
        else mergedItems seen (the (reply_mediaItems r)))
   \<and> seen_mediaItems (fetchPickedMedia seen r st) = seen_mediaItems st"
  by (simp add: fetchPickedMedia_def Let_def)

text \<open>Each event keeps the ids of both lists pairwise distinct.\<close>

lemma album_step_unique_ids:
  assumes "unique_ids st" and "distinct_batch e"
  shows "unique_ids (album_step e st)"
proof (cases e)
  case (PickPhotos result)
  with assms(1) show ?thesis by (simp add: handlePickPhotos_def unique_ids_def)
next
  case (PollSession ready result)
  show ?thesis
  proof (cases "reply_mediaItems result")
    case None
    with assms(1) PollSession show ?thesis
      by (simp add: pollSession_def unique_ids_def fetchPickedMedia_lists)
  next
    case (Some newItems)
    with assms(2) PollSession have "distinct (map item_id newItems)" by simp
    with assms(1) have "distinct (map item_id (mergedItems (seen_mediaItems st) newItems))"
      by (simp add: unique_ids_def mergedItems_distinct)
    with assms(1) PollSession Some show ?thesis
      by (simp add: pollSession_def unique_ids_def fetchPickedMedia_lists)
  qed
next
  case (DeleteItem itemId)
  with assms(1) show ?thesis
    by (simp add: handleDeleteItem_def unique_ids_def distinct_map_filter Let_def)
next
  case ClearSelection
  with assms(1) show ?thesis by (simp add: handleClearSelection_def unique_ids_def)
qed

lemma album_run_unique_ids:
  "unique_ids st \<Longrightarrow> \<forall>e \<in> set es. distinct_batch e \<Longrightarrow> unique_ids (fold album_step es st)"
proof (induction es arbitrary: st)
  case Nil
  then show ?case by simp
next
  case (Cons e es)
  from Cons.prems have "unique_ids (album_step e st)" by (simp add: album_step_unique_ids)
  with Cons show ?case by simp
qed

text \<open>
  Claim C10. Merging newly picked items into the list drops every new item
  whose id already occurs in the list and appends the others, in their order,
  behind the existing items; so when the ids of the list are pairwise distinct
  and the ids of the new batch are pairwise distinct, the ids of the merged
  list are pairwise distinct, and the existing items are its unchanged prefix.
  The list that \<^verbatim>\<open>fetchPickedMedia\<close> merges into is the one its closure
  holds, the list that was on screen when the picking started; the merged
  list replaces the list on screen and the stored one. Pairwise distinct ids
  are an invariant of the component: every event, and so every run of events,
  whose batches have pairwise distinct ids keeps them.
\<close>

theorem mergedItems_unique_ids:
  "mergedItems old new = old @ filter (\<lambda>i. item_id i \<notin> set (map item_id old)) new
   \<and> take (length old) (mergedItems old new) = old
   \<and> (\<forall>i \<in> set new. item_id i \<in> set (map item_id old)
         \<longrightarrow> i \<notin> set (drop (length old) (mergedItems old new)))
   \<and> (distinct (map item_id old) \<and> distinct (map item_id new)
         \<longrightarrow> distinct (map item_id (mergedItems old new)))
   \<and> (success r \<and> reply_mediaItems r = Some new
         \<longrightarrow> album_list.mediaItems (fetchPickedMedia old r st) = mergedItems old new
           \<and> pickedMediaItems (fetchPickedMedia old r st) = mergedItems old new)
   \<and> (unique_ids st \<and> distinct_batch e \<longrightarrow> unique_ids (album_step e st))
   \<and> (unique_ids st \<and> (\<forall>e \<in> set es. distinct_batch e)
         \<longrightarrow> unique_ids (fold album_step es st))"
proof -
  have 1: "mergedItems old new = old @ filter (\<lambda>i. item_id i \<notin> set (map item_id old)) new
   \<and> take (length old) (mergedItems old new) = old
   \<and> (\<forall>i \<in> set new. item_id i \<in> set (map item_id old)
         \<longrightarrow> i \<notin> set (drop (length old) (mergedItems old new)))"
    by (auto simp: mergedItems_def uniqueNewItems_def existingIds_def)
  have 2: "success r \<and> reply_mediaItems r = Some new
         \<longrightarrow> album_list.mediaItems (fetchPickedMedia old r st) = mergedItems old new
           \<and> pickedMediaItems (fetchPickedMedia old r st) = mergedItems old new"
    by (simp add: fetchPickedMedia_def Let_def)
  from 1 2 mergedItems_distinct [of old new] album_step_unique_ids [of st e]
    album_run_unique_ids [of st es]
  show ?thesis by simp
qed

text \<open>
  The theorem at the list \<open>a\<close>, \<open>b\<close>: a batch \<open>b\<close>, \<open>c\<close> merged into
  it; and the run in which the picking starts, \<open>b\<close> is deleted from the
  screen while the picker is open, and the picker brings \<open>c\<close>: the merge is
  made with the list from the start of the picking, so \<open>b\<close> is on screen
  again, and the ids are still distinct.
\<close>

theorem mergedItems_unique_ids_witness:
  "mergedItems [photo ''a'' ''u1'', photo ''b'' ''u2''] [photo ''b'' ''u3'', photo ''c'' ''u4'']
     = [photo ''a'' ''u1'', photo ''b'' ''u2'', photo ''c'' ''u4'']
   \<and> photo ''b'' ''u3'' \<in> set [photo ''b'' ''u3'', photo ''c'' ''u4'']
   \<and> item_id (photo ''b'' ''u3'') \<in> set (map item_id [photo ''a'' ''u1'', photo ''b'' ''u2''])
   \<and> distinct (map item_id [photo ''a'' ''u1'', photo ''b'' ''u2''])
   \<and> distinct (map item_id [photo ''b'' ''u3'', photo ''c'' ''u4''])
   \<and> distinct (map item_id
        (mergedItems [photo ''a'' ''u1'', photo ''b'' ''u2''] [photo ''b'' ''u3'', photo ''c'' ''u4'']))
   \<and> success (picked [photo ''b'' ''u3'', photo ''c'' ''u4''])
   \<and> album_list.mediaItems
        (fetchPickedMedia [photo ''a'' ''u1'', photo ''b'' ''u2'']
           (picked [photo ''b'' ''u3'', photo ''c'' ''u4'']) two_items)
       = [photo ''a'' ''u1'', photo ''b'' ''u2'', photo ''c'' ''u4'']
   \<and> unique_ids two_items
   \<and> distinct_batch (PickPhotos session_started)
   \<and> distinct_batch (DeleteItem ''b'')
   \<and> distinct_batch (PollSession True (picked [photo ''c'' ''u4'']))
   \<and> album_list.mediaItems (album_step (DeleteItem ''b'') (album_step (PickPhotos session_started) two_items))
       = [photo ''a'' ''u1'']
   \<and> album_list.mediaItems
        (fold album_step
           [PickPhotos session_started, DeleteItem ''b'', PollSession True (picked [photo ''c'' ''u4''])]
           two_items)
       = [photo ''a'' ''u1'', photo ''b'' ''u2'', photo ''c'' ''u4'']
   \<and> unique_ids
        (fold album_step
           [PickPhotos session_started, DeleteItem ''b'', PollSession True (picked [photo ''c'' ''u4''])]
           two_items)"
proof -
  have u: "unique_ids two_items"
    by (simp add: unique_ids_def two_items_def photo_def)
  have b: "\<forall>e \<in> set [PickPhotos session_started, DeleteItem ''b'',
                      PollSession True (picked [photo ''c'' ''u4''])]. distinct_batch e"
    by (simp add: picked_def)
  have r: "album_list.mediaItems
        (fold album_step
           [PickPhotos session_started, DeleteItem ''b'', PollSession True (picked [photo ''c'' ''u4''])]
           two_items)
       = [photo ''a'' ''u1'', photo ''b'' ''u2'', photo ''c'' ''u4'']
     \<and> album_list.mediaItems (album_step (DeleteItem ''b'') (album_step (PickPhotos session_started) two_items))
       = [photo ''a'' ''u1'']"
    by (simp add: handlePickPhotos_def handleDeleteItem_def pollSession_def fetchPickedMedia_def
        mergedItems_def uniqueNewItems_def existingIds_def session_started_def picked_def
        two_items_def photo_def Let_def)
  from mergedItems_unique_ids
    [of "[photo ''a'' ''u1'', photo ''b'' ''u2'']" "[photo ''b'' ''u3'', photo ''c'' ''u4'']"
      "picked [photo ''b'' ''u3'', photo ''c'' ''u4'']" two_items
      "PickPhotos session_started"
      "[PickPhotos session_started, DeleteItem ''b'', PollSession True (picked [photo ''c'' ''u4''])]"]
    u b r
  show ?thesis by (simp add: photo_def picked_def)
qed

section \<open>Properties of the retrying fetch\<close>

text \<open>
  The recursive equation of the loop is unfolded one round at a time: the
  loop is over, the attempt is followed by a delay and the next round, or the
  attempt settles the call.
\<close>

declare fetchLoop.simps [simp del]

lemma fetchLoop_done:
  "\<not> i < retries \<Longrightarrow> fetchLoop net url retries i s = (Inl MaxRetriesExceeded, s)"
  by (subst fetchLoop.simps) simp

lemma fetchLoop_retry:
  "i < retries \<Longrightarrow> retried (net (length (requests s)) url) retries i \<Longrightarrow>
   fetchLoop net url retries i s =
     fetchLoop net url retries (i + 1) (waited (INITIAL_DELAY * 2 ^ i) (sent url s))"
  by (subst fetchLoop.simps) (auto simp: retried_def split: outcome.splits)

lemma fetchLoop_settle:
  "i < retries \<Longrightarrow> \<not> retried (net (length (requests s)) url) retries i \<Longrightarrow>
   fetchLoop net url retries i s = (settled (net (length (requests s)) url), sent url s)"
  by (subst fetchLoop.simps) (auto simp: retried_def settled_def split: outcome.splits)

lemma map_upt_shift: "f 0 # map (\<lambda>j. f (Suc j)) [0..<m] = map f [0..<Suc m]"
  by (simp add: map_upt_Suc del: upt_Suc)

lemma fetchLoop_run:
  "\<exists>n m. requests (snd (fetchLoop net url retries i s)) = requests s @ replicate n url
     \<and> waits (snd (fetchLoop net url retries i s))
         = waits s @ map (\<lambda>j. INITIAL_DELAY * 2 ^ (i + j)) [0..<m]
     \<and> (\<forall>j<m. retried (net (length (requests s) + j) url) retries (i + j))
     \<and> i + m \<le> max i retries
     \<and> (fst (fetchLoop net url retries i s) = Inl MaxRetriesExceeded \<and> n = m \<and> retries \<le> i + m
        \<or> n = Suc m \<and> i + m < retries
          \<and> \<not> retried (net (length (requests s) + m) url) retries (i + m)
          \<and> fst (fetchLoop net url retries i s) = settled (net (length (requests s) + m) url))"
proof (induction k \<equiv> "retries - i" arbitrary: i s)
  case 0
  then have "\<not> i < retries" by simp
  then show ?case
    by (intro exI [of _ 0]) (simp add: fetchLoop_done)
next
  case (Suc k)
  then have lt: "i < retries" by simp
  let ?out = "net (length (requests s)) url"
  let ?s1 = "waited (INITIAL_DELAY * 2 ^ i) (sent url s)"
  show ?case
  proof (cases "retried ?out retries i")
    case False
    with lt show ?thesis
      by (intro exI [of _ 1] exI [of _ 0]) (simp add: fetchLoop_settle sent_def)
  next
    case True
    have eq: "fetchLoop net url retries i s = fetchLoop net url retries (i + 1) ?s1"
      using lt True by (rule fetchLoop_retry)
    have k: "k = retries - (i + 1)" using Suc.hyps(2) by simp
    from Suc.hyps(1) [OF k, of ?s1] obtain n m where
      r: "requests (snd (fetchLoop net url retries (i + 1) ?s1)) = requests ?s1 @ replicate n url"
      and w: "waits (snd (fetchLoop net url retries (i + 1) ?s1))
                = waits ?s1 @ map (\<lambda>j. INITIAL_DELAY * 2 ^ (i + 1 + j)) [0..<m]"
      and a: "\<forall>j<m. retried (net (length (requests ?s1) + j) url) retries (i + 1 + j)"
      and b: "i + 1 + m \<le> max (i + 1) retries"
      and c: "fst (fetchLoop net url retries (i + 1) ?s1) = Inl MaxRetriesExceeded \<and> n = m
                \<and> retries \<le> i + 1 + m
              \<or> n = Suc m \<and> i + 1 + m < retries
                \<and> \<not> retried (net (length (requests ?s1) + m) url) retries (i + 1 + m)
                \<and> fst (fetchLoop net url retries (i + 1) ?s1)
                     = settled (net (length (requests ?s1) + m) url)"
      by blast
    have len: "length (requests ?s1) = Suc (length (requests s))"
      by (simp add: waited_def sent_def)
    have r': "requests (snd (fetchLoop net url retries i s)) = requests s @ replicate (Suc n) url"
      using r by (simp add: eq waited_def sent_def)
    have w': "waits (snd (fetchLoop net url retries i s))
                = waits s @ map (\<lambda>j. INITIAL_DELAY * 2 ^ (i + j)) [0..<Suc m]"
      using w map_upt_shift [of "\<lambda>j. INITIAL_DELAY * 2 ^ (i + j)" m]
      by (simp add: eq waited_def sent_def del: upt_Suc)
    have a': "\<forall>j<Suc m. retried (net (length (requests s) + j) url) retries (i + j)"
    proof (intro allI impI)
      fix j assume "j < Suc m"
      show "retried (net (length (requests s) + j) url) retries (i + j)"
      proof (cases j)
        case 0
        with True show ?thesis by simp
      next
        case (Suc j')
        with \<open>j < Suc m\<close> a len show ?thesis by simp
      qed
    qed
    have b': "i + Suc m \<le> max i retries" using b lt by simp
    have c': "fst (fetchLoop net url retries i s) = Inl MaxRetriesExceeded \<and> Suc n = Suc m
                \<and> retries \<le> i + Suc m
              \<or> Suc n = Suc (Suc m) \<and> i + Suc m < retries
                \<and> \<not> retried (net (length (requests s) + Suc m) url) retries (i + Suc m)
                \<and> fst (fetchLoop net url retries i s)
                     = settled (net (length (requests s) + Suc m) url)"
      using c len by (simp add: eq)
    from r' w' a' b' c' show ?thesis by blast
  qed
qed


lemma fetchWithRetry_run:
  "\<exists>m. delays net url retries s = map (\<lambda>j. INITIAL_DELAY * 2 ^ j) [0..<m]
     \<and> (\<forall>j<m. retried (attempt net url s j) retries j)
     \<and> m \<le> retries
     \<and> (fst (fetchWithRetry net url retries s) = Inl MaxRetriesExceeded
          \<and> attempts net url retries s = m \<and> m = retries
        \<or> attempts net url retries s = Suc m \<and> m < retries
          \<and> \<not> retried (attempt net url s m) retries m
          \<and> fst (fetchWithRetry net url retries s) = settled (attempt net url s m))"
  using fetchLoop_run [of net url retries 0 s]
  by (auto simp: delays_def attempts_def attempt_def fetchWithRetry_def)

lemma rate_limited_retried: "rate_limited out \<Longrightarrow> retried out retries j"
  by (auto simp: rate_limited_def retried_def split: outcome.splits)

text \<open>
  Claim C4, as the code has it. Whenever attempt \<open>j\<close> (counted from 0) of a
  call receives HTTP 429, the fetcher waits \<open>INITIAL_DELAY * 2 ^ j\<close> ms, and
  it makes another attempt only if \<open>j + 1\<close> is still below the maximum: the
  rate-limited attempt is one of the \<open>retries\<close> attempts (3 by default), no
  call makes more attempts than that, and a call whose attempts are all
  rate-limited ends with the error "Max retries exceeded".
\<close>

theorem fetchWithRetry_rate_limit:
  "attempts net url retries s \<le> retries
   \<and> (\<forall>j < attempts net url retries s. rate_limited (attempt net url s j) \<longrightarrow>
        j < length (delays net url retries s)
        \<and> delays net url retries s ! j = INITIAL_DELAY * 2 ^ j
        \<and> (j + 1 < retries \<longrightarrow> j + 1 < attempts net url retries s))
   \<and> ((\<forall>j < retries. rate_limited (attempt net url s j)) \<longrightarrow>
        fst (fetchWithRetry net url retries s) = Inl MaxRetriesExceeded
        \<and> attempts net url retries s = retries)"
proof -
  obtain m where d: "delays net url retries s = map (\<lambda>j. INITIAL_DELAY * 2 ^ j) [0..<m]"
    and a: "\<forall>j<m. retried (attempt net url s j) retries j"
    and b: "m \<le> retries"
    and c: "fst (fetchWithRetry net url retries s) = Inl MaxRetriesExceeded
          \<and> attempts net url retries s = m \<and> m = retries
        \<or> attempts net url retries s = Suc m \<and> m < retries
          \<and> \<not> retried (attempt net url s m) retries m
          \<and> fst (fetchWithRetry net url retries s) = settled (attempt net url s m)"
    using fetchWithRetry_run [of net url retries s] by blast
  have 1: "attempts net url retries s \<le> retries" using b c by auto
  have 2: "j < length (delays net url retries s)
        \<and> delays net url retries s ! j = INITIAL_DELAY * 2 ^ j
        \<and> (j + 1 < retries \<longrightarrow> j + 1 < attempts net url retries s)"
    if "j < attempts net url retries s" "rate_limited (attempt net url s j)" for j
  proof -
    have "j < m"
      using that c rate_limited_retried [of "attempt net url s j" retries j]
      by (cases "j = m") auto
    then show ?thesis using d c by auto
  qed
  have 3: "fst (fetchWithRetry net url retries s) = Inl MaxRetriesExceeded
        \<and> attempts net url retries s = retries"
    if "\<forall>j < retries. rate_limited (attempt net url s j)"
    using that c rate_limited_retried [of "attempt net url s m" retries m] by auto
  from 1 2 3 show ?thesis by blast
qed

text \<open>
  The theorem at a network that answers 429 twice and then 200: both
  rate-limited attempts are followed by their delay and by another attempt.
\<close>

theorem fetchWithRetry_rate_limit_witness:
  "attempts (script [Response 429 (), Response 429 ()] (Response 200 ())) ''u'' MAX_RETRIES no_log = 3
   \<and> rate_limited (attempt (script [Response 429 (), Response 429 ()] (Response 200 ())) ''u'' no_log 1)
   \<and> delays (script [Response 429 (), Response 429 ()] (Response 200 ())) ''u'' MAX_RETRIES no_log ! 1
       = 2000
   \<and> rate_limited (attempt (always (Response 429 ())) ''u'' no_log 0)
   \<and> rate_limited (attempt (always (Response 429 ())) ''u'' no_log 1)
   \<and> rate_limited (attempt (always (Response 429 ())) ''u'' no_log 2)
   \<and> fst (fetchWithRetry (always (Response 429 ())) ''u'' MAX_RETRIES no_log) = Inl MaxRetriesExceeded"
  using fetchWithRetry_rate_limit
      [of "script [Response 429 (), Response 429 ()] (Response 200 ())" "''u''" MAX_RETRIES no_log]
    fetchWithRetry_rate_limit [of "always (Response 429 ())" "''u''" MAX_RETRIES no_log]
  by (simp add: attempts_def delays_def attempt_def rate_limited_def fetchWithRetry_def
      fetchLoop.simps MAX_RETRIES_def INITIAL_DELAY_def script_def always_def no_log_def
      sent_def waited_def ok_def)

text \<open>
  Against claim C4 as stated (a rate-limited attempt does not use up one of
  the three attempts, and is retried): the upstream answers 429 three times
  and would answer 200 to a fourth request. The call sends three requests,
  waits 4000 ms after the third and then fails; the fourth request is never
  sent.
\<close>

theorem fetchWithRetry_rate_limit_counterexample:
  "fetchWithRetry (script [Response 429 (), Response 429 (), Response 429 ()] (Response 200 ()))
      ''u'' MAX_RETRIES no_log
     = (Inl MaxRetriesExceeded, \<lparr>requests = [''u'', ''u'', ''u''], waits = [1000, 2000, 4000]\<rparr>)"
  by (simp add: fetchWithRetry_def fetchLoop.simps MAX_RETRIES_def INITIAL_DELAY_def script_def
      no_log_def sent_def waited_def)

text \<open>
  Claim C5, as the code has it. A response whose status is neither 429 nor
  500 or above is handed back to the caller as the result of the call, also
  when the status is not 2xx (a 404, say): no error is raised for it. A
  transport-level failure of the last attempt is rethrown with its cause. The
  only other failure is "Max retries exceeded": it is raised when, and only
  when, every one of the attempts was answered 429 or 5xx (or, before the last
  attempt, failed in transport), which is what \<open>retried\<close> says of an
  attempt; it carries neither status nor cause.
\<close>

theorem fetchWithRetry_failure:
  "(\<forall>j < attempts net url retries s. \<forall>status body.
       attempt net url s j = Response status body \<and> status \<noteq> 429 \<and> status < 500 \<longrightarrow>
       fst (fetchWithRetry net url retries s) = Inr (status, body)
       \<and> attempts net url retries s = j + 1)
   \<and> (\<forall>e. retries - 1 < attempts net url retries s
          \<and> attempt net url s (retries - 1) = NetworkError e \<longrightarrow>
          fst (fetchWithRetry net url retries s) = Inl (TransportError e))
   \<and> (fst (fetchWithRetry net url retries s) = Inl MaxRetriesExceeded \<longrightarrow>
        attempts net url retries s = retries
        \<and> (\<forall>j < retries. retried (attempt net url s j) retries j))
   \<and> ((\<forall>j < retries. retried (attempt net url s j) retries j) \<longrightarrow>
        fst (fetchWithRetry net url retries s) = Inl MaxRetriesExceeded
        \<and> attempts net url retries s = retries)
   \<and> ((\<forall>j < retries. \<exists>status body. attempt net url s j = Response status body
                           \<and> (status = 429 \<or> status \<ge> 500)) \<longrightarrow>
        fst (fetchWithRetry net url retries s) = Inl MaxRetriesExceeded
        \<and> attempts net url retries s = retries)"
proof -
  obtain m where
    a: "\<forall>j<m. retried (attempt net url s j) retries j"
    and b: "m \<le> retries"
    and c: "fst (fetchWithRetry net url retries s) = Inl MaxRetriesExceeded
          \<and> attempts net url retries s = m \<and> m = retries
        \<or> attempts net url retries s = Suc m \<and> m < retries
          \<and> \<not> retried (attempt net url s m) retries m
          \<and> fst (fetchWithRetry net url retries s) = settled (attempt net url s m)"
    using fetchWithRetry_run [of net url retries s] by blast
  have 1: "fst (fetchWithRetry net url retries s) = Inr (status, body)
       \<and> attempts net url retries s = j + 1"
    if "j < attempts net url retries s" "attempt net url s j = Response status body"
       "status \<noteq> 429" "status < 500" for j status body
  proof -
    have nr: "\<not> retried (attempt net url s j) retries j"
      using that by (simp add: retried_def)
    then have "\<not> j < m" using a by blast
    with that(1) c have "j = m" "attempts net url retries s = Suc m"
      "fst (fetchWithRetry net url retries s) = settled (attempt net url s m)" by auto
    then show ?thesis using that(2) by (simp add: settled_def)
  qed
  have 2: "fst (fetchWithRetry net url retries s) = Inl (TransportError e)"
    if "retries - 1 < attempts net url retries s"
       "attempt net url s (retries - 1) = NetworkError e" for e
  proof -
    have nr: "\<not> retried (attempt net url s (retries - 1)) retries (retries - 1)"
      using that by (simp add: retried_def)
    then have "\<not> retries - 1 < m" using a by blast
    with that(1) c b have "retries - 1 = m"
      "fst (fetchWithRetry net url retries s) = settled (attempt net url s m)" by auto
    then show ?thesis using that(2) by (simp add: settled_def)
  qed
  have 3: "attempts net url retries s = retries
        \<and> (\<forall>j < retries. retried (attempt net url s j) retries j)"
    if "fst (fetchWithRetry net url retries s) = Inl MaxRetriesExceeded"
  proof -
    have "settled (attempt net url s m) \<noteq> Inl MaxRetriesExceeded"
      by (simp add: settled_def split: outcome.splits)
    with that c have "attempts net url retries s = m \<and> m = retries" by auto
    with a show ?thesis by simp
  qed
  have 4: "(\<forall>j < retries. retried (attempt net url s j) retries j) \<longrightarrow>
        fst (fetchWithRetry net url retries s) = Inl MaxRetriesExceeded
        \<and> attempts net url retries s = retries"
  proof
    assume all: "\<forall>j < retries. retried (attempt net url s j) retries j"
    from c show "fst (fetchWithRetry net url retries s) = Inl MaxRetriesExceeded
        \<and> attempts net url retries s = retries"
    proof
      assume "fst (fetchWithRetry net url retries s) = Inl MaxRetriesExceeded
          \<and> attempts net url retries s = m \<and> m = retries"
      then show ?thesis by simp
    next
      assume n: "attempts net url retries s = Suc m \<and> m < retries
          \<and> \<not> retried (attempt net url s m) retries m
          \<and> fst (fetchWithRetry net url retries s) = settled (attempt net url s m)"
      then have "m < retries" "\<not> retried (attempt net url s m) retries m" by simp_all
      with all have False by simp
      then show ?thesis ..
    qed
  qed
  have 5: "(\<forall>j < retries. \<exists>status body. attempt net url s j = Response status body
                           \<and> (status = 429 \<or> status \<ge> 500)) \<longrightarrow>
        fst (fetchWithRetry net url retries s) = Inl MaxRetriesExceeded
        \<and> attempts net url retries s = retries"
  proof
    assume st: "\<forall>j < retries. \<exists>status body. attempt net url s j = Response status body
                           \<and> (status = 429 \<or> status \<ge> 500)"
    have "\<forall>j < retries. retried (attempt net url s j) retries j"
    proof (intro allI impI)
      fix j assume "j < retries"
      with st have "\<exists>status body. attempt net url s j = Response status body
                           \<and> (status = 429 \<or> status \<ge> 500)" by simp
      then obtain status body where sb: "attempt net url s j = Response status body
                           \<and> (status = 429 \<or> status \<ge> 500)" by (elim exE)
      then show "retried (attempt net url s j) retries j"
        by (auto simp: retried_def ok_def)
    qed
    with 4 show "fst (fetchWithRetry net url retries s) = Inl MaxRetriesExceeded
        \<and> attempts net url retries s = retries" by simp
  qed
  from 1 2 3 have 123: "(\<forall>j < attempts net url retries s. \<forall>status body.
       attempt net url s j = Response status body \<and> status \<noteq> 429 \<and> status < 500 \<longrightarrow>
       fst (fetchWithRetry net url retries s) = Inr (status, body)
       \<and> attempts net url retries s = j + 1)
   \<and> (\<forall>e. retries - 1 < attempts net url retries s
          \<and> attempt net url s (retries - 1) = NetworkError e \<longrightarrow>
          fst (fetchWithRetry net url retries s) = Inl (TransportError e))
   \<and> (fst (fetchWithRetry net url retries s) = Inl MaxRetriesExceeded \<longrightarrow>
        attempts net url retries s = retries
        \<and> (\<forall>j < retries. retried (attempt net url s j) retries j))"
    by blast
  from conjunct1 [OF 123] conjunct1 [OF conjunct2 [OF 123]] conjunct2 [OF conjunct2 [OF 123]] 4 5
  show ?thesis by (intro conjI)
qed

text \<open>
  The theorem at three networks: a 503 followed by a 404 (the 404 is the
  result), a transport failure on every attempt (the third is rethrown), and
  a 503 on every attempt.
\<close>

theorem fetchWithRetry_failure_witness:
  "attempt (script [Response 503 ()] (Response 404 ())) ''u'' no_log 1 = Response 404 ()
   \<and> 1 < attempts (script [Response 503 ()] (Response 404 ())) ''u'' MAX_RETRIES no_log
   \<and> fst (fetchWithRetry (script [Response 503 ()] (Response 404 ())) ''u'' MAX_RETRIES no_log)
       = Inr (404, ())
   \<and> MAX_RETRIES - 1 < attempts (always (NetworkError ''down'' :: unit outcome)) ''u'' MAX_RETRIES no_log
   \<and> fst (fetchWithRetry (always (NetworkError ''down'' :: unit outcome)) ''u'' MAX_RETRIES no_log)
       = Inl (TransportError ''down'')
   \<and> retried (attempt (always (Response 503 ())) ''u'' no_log 0) MAX_RETRIES 0
   \<and> retried (attempt (always (Response 503 ())) ''u'' no_log 1) MAX_RETRIES 1
   \<and> retried (attempt (always (Response 503 ())) ''u'' no_log 2) MAX_RETRIES 2
   \<and> fst (fetchWithRetry (always (Response 503 ())) ''u'' MAX_RETRIES no_log) = Inl MaxRetriesExceeded
   \<and> attempts (always (Response 503 ())) ''u'' MAX_RETRIES no_log = MAX_RETRIES"
proof -
  let ?a = "script [Response 503 ()] (Response 404 ())"
  let ?b = "always (NetworkError ''down'' :: unit outcome)"
  let ?c = "always (Response 503 ())"
  have a: "attempt ?a ''u'' no_log 1 = Response 404 ()"
    "1 < attempts ?a ''u'' MAX_RETRIES no_log"
    by (simp_all add: attempts_def attempt_def fetchWithRetry_def fetchLoop.simps MAX_RETRIES_def
        INITIAL_DELAY_def script_def no_log_def sent_def waited_def ok_def)
  have b: "MAX_RETRIES - 1 < attempts ?b ''u'' MAX_RETRIES no_log"
    "attempt ?b ''u'' no_log (MAX_RETRIES - 1) = NetworkError ''down''"
    by (simp_all add: attempts_def attempt_def fetchWithRetry_def fetchLoop.simps MAX_RETRIES_def
        INITIAL_DELAY_def always_def no_log_def sent_def waited_def)
  have r: "retried (attempt ?c ''u'' no_log j) MAX_RETRIES j" for j
    by (simp add: retried_def attempt_def always_def ok_def)
  note t1 = fetchWithRetry_failure [of ?a "''u''" MAX_RETRIES no_log]
  note t2 = fetchWithRetry_failure [of ?b "''u''" MAX_RETRIES no_log]
  note t3 = fetchWithRetry_failure [of ?c "''u''" MAX_RETRIES no_log]
  have 1: "fst (fetchWithRetry ?a ''u'' MAX_RETRIES no_log) = Inr (404, ())"
    using conjunct1 [OF t1] a by simp
  have 2: "fst (fetchWithRetry ?b ''u'' MAX_RETRIES no_log) = Inl (TransportError ''down'')"
    using conjunct1 [OF conjunct2 [OF t2]] b by simp
  have 3: "fst (fetchWithRetry ?c ''u'' MAX_RETRIES no_log) = Inl MaxRetriesExceeded
      \<and> attempts ?c ''u'' MAX_RETRIES no_log = MAX_RETRIES"
    using conjunct1 [OF conjunct2 [OF conjunct2 [OF conjunct2 [OF t3]]]] r by simp
  from a(1) a(2) 1 b(1) 2 r [of 0] r [of 1] r [of 2] 3 show ?thesis
    by (simp only: simp_thms)
qed

text \<open>
  Against claim C5 as stated (a non-2xx status other than 429 and 5xx makes
  the fetch fail): the upstream answers 404, which is not \<^verbatim>\<open>ok\<close>, and the
  call returns that response after one request.
\<close>

theorem fetchWithRetry_failure_counterexample:
  "fetchWithRetry (always (Response 404 ''Not Found'')) ''u'' MAX_RETRIES no_log
     = (Inr (404, ''Not Found''), \<lparr>requests = [''u''], waits = []\<rparr>)
   \<and> \<not> ok 404"
  by (simp add: fetchWithRetry_def fetchLoop.simps MAX_RETRIES_def always_def
      no_log_def sent_def ok_def)

section \<open>Properties of the refresh\<close>

declare batchLoop.simps [simp del]

lemma fetchWithRetry_requests:
  "\<exists>n. 0 < n \<and> requests (snd (fetchWithRetry net url MAX_RETRIES s)) = requests s @ replicate n url"
proof -
  obtain n m where r: "requests (snd (fetchLoop net url MAX_RETRIES 0 s)) = requests s @ replicate n url"
    and c: "n = m \<and> MAX_RETRIES \<le> 0 + m \<or> n = Suc m"
    using fetchLoop_run [of net url MAX_RETRIES 0 s] by blast
  from c have "0 < n" by (auto simp: MAX_RETRIES_def)
  with r show ?thesis by (auto simp: fetchWithRetry_def)
qed

lemma batchLoop_done:
  "\<not> i < length ids \<Longrightarrow> batchLoop net ids i urlMap s = (Inr urlMap, s)"
  by (subst batchLoop.simps) simp

lemma batchLoop_abort:
  "i < length ids \<Longrightarrow> fst (fetchWithRetry net (take 50 (drop i ids)) MAX_RETRIES s) = Inl e \<Longrightarrow>
   batchLoop net ids i urlMap s = (Inl e, snd (fetchWithRetry net (take 50 (drop i ids)) MAX_RETRIES s))"
  by (subst batchLoop.simps) (auto split: prod.splits)

lemma batchLoop_unparsable:
  "i < length ids \<Longrightarrow>
   fst (fetchWithRetry net (take 50 (drop i ids)) MAX_RETRIES s) = Inr (status, Unparsable) \<Longrightarrow>
   batchLoop net ids i urlMap s
     = (Inl JsonError, snd (fetchWithRetry net (take 50 (drop i ids)) MAX_RETRIES s))"
  by (subst batchLoop.simps) (auto split: prod.splits)

lemma batchLoop_skip:
  "i < length ids \<Longrightarrow>
   fst (fetchWithRetry net (take 50 (drop i ids)) MAX_RETRIES s) = Inr (status, Data None) \<Longrightarrow>
   batchLoop net ids i urlMap s
     = batchLoop net ids (i + 50) urlMap (snd (fetchWithRetry net (take 50 (drop i ids)) MAX_RETRIES s))"
  by (subst batchLoop.simps) (auto split: prod.splits)

lemma batchLoop_collect:
  "i < length ids \<Longrightarrow>
   fst (fetchWithRetry net (take 50 (drop i ids)) MAX_RETRIES s) = Inr (status, Data (Some results)) \<Longrightarrow>
   batchLoop net ids i urlMap s
     = batchLoop net ids (i + 50) (collect results urlMap)
         (snd (fetchWithRetry net (take 50 (drop i ids)) MAX_RETRIES s))"
  by (subst batchLoop.simps) (auto split: prod.splits)

lemma batch_bounds:
  "length (take 50 (drop i ids)) \<le> 50 \<and> set (take 50 (drop i ids)) \<subseteq> set ids"
proof
  show "length (take 50 (drop i ids)) \<le> 50" by simp
  show "set (take 50 (drop i ids)) \<subseteq> set ids"
    using set_take_subset [of 50 "drop i ids"] set_drop_subset [of i ids] by blast
qed

lemma batch_nth:
  assumes "i \<le> k" "k < i + 50" "k < length ids"
  shows "ids ! k \<in> set (take 50 (drop i ids))"
proof -
  have l: "k - i < length (take 50 (drop i ids))"
    using assms by (simp add: min_def) arith
  have "take 50 (drop i ids) ! (k - i) = ids ! k" using assms by simp
  with nth_mem [OF l] show ?thesis by simp
qed

text \<open>
  What a run of the loop from offset \<open>i\<close> adds to the log: slices of at most
  50 of the ids, and, when the run does not fail, a slice for every id from
  \<open>i\<close> on.
\<close>

lemma batchLoop_requests:
  "\<exists>extra. requests (snd (batchLoop net ids i urlMap s)) = requests s @ extra
     \<and> (\<forall>b \<in> set extra. length b \<le> 50 \<and> set b \<subseteq> set ids)
     \<and> ((\<exists>m. fst (batchLoop net ids i urlMap s) = Inr m) \<longrightarrow>
          (\<forall>k. i \<le> k \<and> k < length ids \<longrightarrow> (\<exists>b \<in> set extra. ids ! k \<in> set b)))"
proof (induction n \<equiv> "length ids - i" arbitrary: i urlMap s rule: less_induct)
  case less
  show ?case
  proof (cases "i < length ids")
    case False
    then show ?thesis by (intro exI [of _ "[]"]) (simp add: batchLoop_done)
  next
    case True
    let ?batch = "take 50 (drop i ids)"
    let ?f = "fetchWithRetry net ?batch MAX_RETRIES s"
    from fetchWithRetry_requests [of net ?batch s]
    obtain n where nn: "0 < n \<and> requests (snd ?f) = requests s @ replicate n ?batch" ..
    note n = conjunct1 [OF nn] conjunct2 [OF nn]
    have bsub: "length ?batch \<le> 50 \<and> set ?batch \<subseteq> set ids"
      by (rule batch_bounds)
    have inb: "ids ! k \<in> set ?batch" if "i \<le> k" "k < i + 50" "k < length ids" for k
      using that by (rule batch_nth)
    have "length ids - (i + 50) < length ids - i" using True by simp
    note ih = less.hyps [OF this]
    have cont: ?thesis
      if eq: "batchLoop net ids i urlMap s = batchLoop net ids (i + 50) um (snd ?f)" for um
    proof -
      from ih [of um "snd ?f"] obtain extra where
        ex: "requests (snd (batchLoop net ids (i + 50) um (snd ?f))) = requests (snd ?f) @ extra
        \<and> (\<forall>b \<in> set extra. length b \<le> 50 \<and> set b \<subseteq> set ids)
        \<and> ((\<exists>m. fst (batchLoop net ids (i + 50) um (snd ?f)) = Inr m) \<longrightarrow>
          (\<forall>k. i + 50 \<le> k \<and> k < length ids \<longrightarrow> (\<exists>b \<in> set extra. ids ! k \<in> set b)))" ..
      note e = conjunct1 [OF ex] conjunct1 [OF conjunct2 [OF ex]] conjunct2 [OF conjunct2 [OF ex]]
      let ?extra = "replicate n ?batch @ extra"
      have 1: "requests (snd (batchLoop net ids i urlMap s)) = requests s @ ?extra"
        using e(1) n(2) by (simp add: eq)
      have 2: "\<forall>b \<in> set ?extra. length b \<le> 50 \<and> set b \<subseteq> set ids"
        using e(2) bsub by auto
      have 3: "(\<exists>m. fst (batchLoop net ids i urlMap s) = Inr m) \<longrightarrow>
          (\<forall>k. i \<le> k \<and> k < length ids \<longrightarrow> (\<exists>b \<in> set ?extra. ids ! k \<in> set b))"
      proof (intro impI allI)
        fix k assume ok: "\<exists>m. fst (batchLoop net ids i urlMap s) = Inr m"
          and k: "i \<le> k \<and> k < length ids"
        show "\<exists>b \<in> set ?extra. ids ! k \<in> set b"
        proof (cases "k < i + 50")
          case True
          with k inb [of k] n(1) show ?thesis by auto
        next
          case False
          from ok e(3) have "\<forall>k. i + 50 \<le> k \<and> k < length ids \<longrightarrow> (\<exists>b \<in> set extra. ids ! k \<in> set b)"
            by (simp add: eq)
          with k False obtain b where "b \<in> set extra" "ids ! k \<in> set b"
            by (meson not_less)
          then show ?thesis by auto
        qed
      qed
      from 1 2 3 have "requests (snd (batchLoop net ids i urlMap s)) = requests s @ ?extra
          \<and> (\<forall>b \<in> set ?extra. length b \<le> 50 \<and> set b \<subseteq> set ids)
          \<and> ((\<exists>m. fst (batchLoop net ids i urlMap s) = Inr m) \<longrightarrow>
               (\<forall>k. i \<le> k \<and> k < length ids \<longrightarrow> (\<exists>b \<in> set ?extra. ids ! k \<in> set b)))"
        by (intro conjI)
      then show ?thesis by (rule exI [of _ ?extra])
    qed
    have stop: ?thesis
      if eq: "batchLoop net ids i urlMap s = (Inl e, snd ?f)" for e
      using n bsub by (intro exI [of _ "replicate n ?batch"]) (auto simp: eq)
    show ?thesis
    proof (cases "fst ?f")
      case (Inl e)
      from batchLoop_abort [OF True Inl] show ?thesis by (rule stop)
    next
      case (Inr r)
      obtain status b where r: "r = (status, b)" by (cases r)
      show ?thesis
      proof (cases b)
        case Unparsable
        with Inr r have "fst ?f = Inr (status, Unparsable)" by simp
        from batchLoop_unparsable [OF True this] show ?thesis by (rule stop)
      next
        case (Data d)
        show ?thesis
        proof (cases d)
          case None
          with Inr r Data have "fst ?f = Inr (status, Data None)" by simp
          from batchLoop_skip [OF True this] show ?thesis by (rule cont)
        next
          case (Some results)
          with Inr r Data have "fst ?f = Inr (status, Data (Some results))" by simp
          from batchLoop_collect [OF True this] show ?thesis by (rule cont)
        qed
      qed
    qed
  qed
qed

lemma photosApi_refreshBaseUrls_log:
  "log (snd (photosApi_refreshBaseUrls net now ids sv)) = snd (batchLoop net ids 0 Map.empty (log sv))"
  by (simp add: photosApi_refreshBaseUrls_def split: prod.splits sum.splits)

lemma photosApi_refreshBaseUrls_result:
  "fst (photosApi_refreshBaseUrls net now ids sv) = fst (batchLoop net ids 0 Map.empty (log sv))"
  by (simp add: photosApi_refreshBaseUrls_def split: prod.splits sum.splits)

lemma photosApi_refreshBaseUrls_failed:
  "fst (batchLoop net ids 0 Map.empty (log sv)) = Inl e \<Longrightarrow>
   stored (snd (photosApi_refreshBaseUrls net now ids sv)) = stored sv"
  by (cases "batchLoop net ids 0 Map.empty (log sv)") (simp add: photosApi_refreshBaseUrls_def)

lemma refresh_urls_log:
  "token \<noteq> None \<Longrightarrow> token \<noteq> Some [] \<Longrightarrow>
   log (snd (refresh_urls token net now ids sv)) = snd (batchLoop net ids 0 Map.empty (log sv))"
  using photosApi_refreshBaseUrls_log [of net now ids sv]
  by (cases "photosApi_refreshBaseUrls net now ids sv")
    (auto simp: refresh_urls_def split: sum.splits)

lemma refresh_urls_result:
  "token \<noteq> None \<Longrightarrow> token \<noteq> Some [] \<Longrightarrow>
   fst (refresh_urls token net now ids sv)
     = (case fst (batchLoop net ids 0 Map.empty (log sv)) of
          Inl e \<Rightarrow> Failed (Raised e) | Inr urlMap \<Rightarrow> Urls urlMap)"
  using photosApi_refreshBaseUrls_result [of net now ids sv]
  by (cases "photosApi_refreshBaseUrls net now ids sv")
    (auto simp: refresh_urls_def split: sum.splits)

lemma refresh_urls_no_token:
  "token = None \<or> token = Some [] \<Longrightarrow>
   refresh_urls token net now ids sv = (Failed NotAuthenticated, sv)"
  by (auto simp: refresh_urls_def)

lemma refresh_urls_failed:
  assumes "fst (refresh_urls token net now ids sv) = Failed f"
  shows "stored (snd (refresh_urls token net now ids sv)) = stored sv"
proof (cases "token = None \<or> token = Some []")
  case True
  then show ?thesis by (simp add: refresh_urls_no_token)
next
  case False
  obtain r sv' where p: "photosApi_refreshBaseUrls net now ids sv = (r, sv')"
    by (cases "photosApi_refreshBaseUrls net now ids sv")
  show ?thesis
  proof (cases r)
    case (Inl e)
    with p have "fst (batchLoop net ids 0 Map.empty (log sv)) = Inl e"
      using photosApi_refreshBaseUrls_result [of net now ids sv] by simp
    from photosApi_refreshBaseUrls_failed [OF this, of now] p Inl False
    show ?thesis by (auto simp: refresh_urls_def)
  next
    case (Inr m)
    with p False assms show ?thesis by (auto simp: refresh_urls_def)
  qed
qed

lemma Slideshow_refreshBaseUrls_fst:
  "fst (Slideshow_refreshBaseUrls token net nowMain nowRenderer items (prev, sv))
     = (case fst (refresh_urls token net nowMain (map item_id items) sv) of
          Urls urls \<Rightarrow> refreshed nowRenderer urls prev | Failed f \<Rightarrow> prev)"
  by (simp add: Slideshow_refreshBaseUrls_def split: prod.splits refresh_reply.splits)

lemma Slideshow_refreshBaseUrls_snd:
  "snd (Slideshow_refreshBaseUrls token net nowMain nowRenderer items (prev, sv))
     = snd (refresh_urls token net nowMain (map item_id items) sv)"
  by (simp add: Slideshow_refreshBaseUrls_def split: prod.splits refresh_reply.splits)

lemma refreshed_cachedAt: "\<forall>item \<in> set (refreshed now urls prev). cachedAt item = now"
  by (simp add: refreshed_def)

lemma refreshed_ids: "map item_id (refreshed now urls prev) = map item_id prev"
  by (simp add: refreshed_def)

lemma refreshed_kept:
  "k < length prev \<Longrightarrow> urls (item_id (prev ! k)) = None \<or> urls (item_id (prev ! k)) = Some [] \<Longrightarrow>
   baseUrl (refreshed now urls prev ! k) = baseUrl (prev ! k)"
  by (auto simp: refreshed_def)

lemma batchLoop_single:
  assumes "\<not> retried (attempt net [i] s 0) MAX_RETRIES 0"
  shows "requests (snd (batchLoop net [i] 0 urlMap s)) = requests s @ [[i]]"
proof -
  have f: "fetchWithRetry net [i] MAX_RETRIES s = (settled (net (length (requests s)) [i]), sent [i] s)"
    using assms fetchLoop_settle [of 0 MAX_RETRIES net s "[i]"]
    by (simp add: fetchWithRetry_def attempt_def MAX_RETRIES_def)
  show ?thesis
    by (subst batchLoop.simps)
      (simp add: f batchLoop_done sent_def split: sum.splits prod.splits body.splits option.splits)
qed


text \<open>
  Claim C2, as the code has it. The refresh asks upstream about every item it
  is given, whatever the age of its locator: the call does not read
  \<^verbatim>\<open>cachedAt\<close> at all (the 50 minutes are only the period of the timer
  that starts the call). The ids go out in requests of at most 50; when the
  call succeeds every id of the given items is in one of them, and every item
  of the list then carries the time of the update as its \<^verbatim>\<open>cachedAt\<close>,
  with its id unchanged. For a single item whose first attempt is not retried
  exactly one request is sent, at any time.
\<close>

theorem refreshBaseUrls_every_item:
  "Slideshow_refreshBaseUrls token net nowMain nowRenderer (map (aged t) items) st
     = Slideshow_refreshBaseUrls token net nowMain nowRenderer items st
   \<and> (\<forall>b \<in> set (new_requests sv
            (snd (Slideshow_refreshBaseUrls token net nowMain nowRenderer items (prev, sv)))).
         length b \<le> 50 \<and> set b \<subseteq> item_id ` set items)
   \<and> (fst (refresh_urls token net nowMain (map item_id items) sv) = Urls urls \<longrightarrow>
        (\<forall>item \<in> set items.
           \<exists>b \<in> set (new_requests sv
                  (snd (Slideshow_refreshBaseUrls token net nowMain nowRenderer items (prev, sv)))).
             item_id item \<in> set b)
        \<and> fst (Slideshow_refreshBaseUrls token net nowMain nowRenderer items (prev, sv))
            = refreshed nowRenderer urls prev
        \<and> (\<forall>item \<in> set (refreshed nowRenderer urls prev). cachedAt item = nowRenderer)
        \<and> map item_id (refreshed nowRenderer urls prev) = map item_id prev)
   \<and> (token \<noteq> None \<and> token \<noteq> Some []
        \<and> \<not> retried (attempt net [item_id item] (log sv) 0) MAX_RETRIES 0 \<longrightarrow>
        new_requests sv
          (snd (Slideshow_refreshBaseUrls token net nowMain nowRenderer [item] (prev, sv)))
          = [[item_id item]])"
proof -
  let ?ids = "map item_id items"
  let ?sv' = "snd (Slideshow_refreshBaseUrls token net nowMain nowRenderer items (prev, sv))"
  have 1: "Slideshow_refreshBaseUrls token net nowMain nowRenderer (map (aged t) items) st
     = Slideshow_refreshBaseUrls token net nowMain nowRenderer items st"
    by (simp add: Slideshow_refreshBaseUrls_def aged_def comp_def)
  have sv': "?sv' = snd (refresh_urls token net nowMain ?ids sv)"
    by (rule Slideshow_refreshBaseUrls_snd)
  from batchLoop_requests [of net ?ids 0 Map.empty "log sv"]
  obtain extra where ex:
    "requests (snd (batchLoop net ?ids 0 Map.empty (log sv))) = requests (log sv) @ extra
     \<and> (\<forall>b \<in> set extra. length b \<le> 50 \<and> set b \<subseteq> set ?ids)
     \<and> ((\<exists>m. fst (batchLoop net ?ids 0 Map.empty (log sv)) = Inr m) \<longrightarrow>
          (\<forall>k. 0 \<le> k \<and> k < length ?ids \<longrightarrow> (\<exists>b \<in> set extra. ?ids ! k \<in> set b)))" ..
  show ?thesis
  proof (cases "token = None \<or> token = Some []")
    case True
    then have "new_requests sv ?sv' = []"
      by (simp add: sv' refresh_urls_no_token new_requests_def)
    moreover from True have "fst (refresh_urls token net nowMain ?ids sv) \<noteq> Urls urls"
      by (simp add: refresh_urls_no_token)
    ultimately show ?thesis using 1 True by auto
  next
    case False
    then have tok: "token \<noteq> None" "token \<noteq> Some []" by simp_all
    have new: "new_requests sv ?sv' = extra"
      using ex by (simp add: sv' refresh_urls_log [OF tok] new_requests_def)
    have 2: "\<forall>b \<in> set (new_requests sv ?sv'). length b \<le> 50 \<and> set b \<subseteq> item_id ` set items"
      using ex by (simp add: new)
    have 3: "(\<forall>item \<in> set items. \<exists>b \<in> set (new_requests sv ?sv'). item_id item \<in> set b)
        \<and> fst (Slideshow_refreshBaseUrls token net nowMain nowRenderer items (prev, sv))
            = refreshed nowRenderer urls prev
        \<and> (\<forall>item \<in> set (refreshed nowRenderer urls prev). cachedAt item = nowRenderer)
        \<and> map item_id (refreshed nowRenderer urls prev) = map item_id prev"
      if u: "fst (refresh_urls token net nowMain ?ids sv) = Urls urls"
    proof -
      from u have "\<exists>m. fst (batchLoop net ?ids 0 Map.empty (log sv)) = Inr m"
        by (simp add: refresh_urls_result [OF tok] split: sum.splits)
      with ex have cover: "\<forall>k. k < length ?ids \<longrightarrow> (\<exists>b \<in> set extra. ?ids ! k \<in> set b)"
        by simp
      have a: "\<exists>b \<in> set (new_requests sv ?sv'). item_id item \<in> set b" if "item \<in> set items" for item
      proof -
        from that obtain k where "k < length items" "items ! k = item"
          by (auto simp: in_set_conv_nth)
        with cover show ?thesis by (auto simp: new)
      qed
      have b: "fst (Slideshow_refreshBaseUrls token net nowMain nowRenderer items (prev, sv))
            = refreshed nowRenderer urls prev"
        by (simp add: Slideshow_refreshBaseUrls_fst u)
      from a b refreshed_cachedAt [of nowRenderer urls prev] refreshed_ids [of nowRenderer urls prev]
      show ?thesis by simp
    qed
    have 4: "new_requests sv
          (snd (Slideshow_refreshBaseUrls token net nowMain nowRenderer [item] (prev, sv)))
          = [[item_id item]]"
      if "\<not> retried (attempt net [item_id item] (log sv) 0) MAX_RETRIES 0"
      using batchLoop_single [OF that, of Map.empty]
      by (simp add: Slideshow_refreshBaseUrls_snd refresh_urls_log [OF tok] new_requests_def)
    from 1 2 3 4 show ?thesis by simp
  qed
qed

text \<open>
  The theorem at one item whose locator was issued at minute 0, refreshed at
  minute 51 by an upstream that answers at once.
\<close>

theorem refreshBaseUrls_every_item_witness:
  "fst (refresh_urls (Some ''token'') fresh_urls (minutes 51) (map item_id [photo ''a'' ''old''])
         idle_service) = Urls [''a'' \<mapsto> ''new-a'']
   \<and> \<not> retried (attempt fresh_urls [item_id (photo ''a'' ''old'')] (log idle_service) 0) MAX_RETRIES 0
   \<and> isBaseUrlExpired (minutes 51) (cachedAt (photo ''a'' ''old''))
   \<and> new_requests idle_service
        (snd (Slideshow_refreshBaseUrls (Some ''token'') fresh_urls (minutes 51) (minutes 51)
               [photo ''a'' ''old''] ([photo ''a'' ''old''], idle_service))) = [[''a'']]
   \<and> fst (Slideshow_refreshBaseUrls (Some ''token'') fresh_urls (minutes 51) (minutes 51)
            [photo ''a'' ''old''] ([photo ''a'' ''old''], idle_service))
       = [(photo ''a'' ''new-a'')\<lparr>cachedAt := minutes 51\<rparr>]"
proof -
  have f: "fetchWithRetry fresh_urls [''a''] MAX_RETRIES no_log
             = (Inr (200, Data (Some [Some (''a'', ''new-a'')])), \<lparr>requests = [[''a'']], waits = []\<rparr>)"
    by (simp add: fetchWithRetry_def fetchLoop.simps MAX_RETRIES_def fresh_urls_def no_log_def
        sent_def ok_def)
  have b: "batchLoop fresh_urls [''a''] 0 Map.empty no_log
             = (Inr [''a'' \<mapsto> ''new-a''], \<lparr>requests = [[''a'']], waits = []\<rparr>)"
    by (subst batchLoop.simps) (simp add: f batchLoop_done)
  have u: "fst (refresh_urls (Some ''token'') fresh_urls (minutes 51) (map item_id [photo ''a'' ''old''])
         idle_service) = Urls [''a'' \<mapsto> ''new-a'']"
    by (simp add: refresh_urls_def photosApi_refreshBaseUrls_def photo_def idle_service_def b)
  have r: "\<not> retried (attempt fresh_urls [item_id (photo ''a'' ''old'')] (log idle_service) 0) MAX_RETRIES 0"
    by (simp add: retried_def attempt_def fresh_urls_def ok_def)
  have e: "isBaseUrlExpired (minutes 51) (cachedAt (photo ''a'' ''old''))"
    by (simp add: isBaseUrlExpired_def minutes_def BASE_URL_TTL_def photo_def)
  from refreshBaseUrls_every_item [of "Some ''token''" fresh_urls "minutes 51" "minutes 51" "\<lambda>item. 0"
      "[photo ''a'' ''old'']" "([photo ''a'' ''old''], idle_service)" idle_service
      "[photo ''a'' ''old'']" "[''a'' \<mapsto> ''new-a'']" "photo ''a'' ''old''"] u r e
  show ?thesis by (simp add: refreshed_def photo_def)
qed

text \<open>
  Against claim C2 as stated (no refresh is issued for a locator younger than
  50 minutes): the same item at minute 49 is not expired by
  \<^verbatim>\<open>isBaseUrlExpired\<close>, and the call sends the request for it all the same.
\<close>

theorem refreshBaseUrls_every_item_counterexample:
  "\<not> isBaseUrlExpired (minutes 49) (cachedAt (photo ''a'' ''old''))
   \<and> requests (log (snd (Slideshow_refreshBaseUrls (Some ''token'') fresh_urls (minutes 49) (minutes 49)
               [photo ''a'' ''old''] ([photo ''a'' ''old''], idle_service)))) = [[''a'']]"
proof -
  have f: "fetchWithRetry fresh_urls [''a''] MAX_RETRIES no_log
             = (Inr (200, Data (Some [Some (''a'', ''new-a'')])), \<lparr>requests = [[''a'']], waits = []\<rparr>)"
    by (simp add: fetchWithRetry_def fetchLoop.simps MAX_RETRIES_def fresh_urls_def no_log_def
        sent_def ok_def)
  have b: "batchLoop fresh_urls [''a''] 0 Map.empty no_log
             = (Inr [''a'' \<mapsto> ''new-a''], \<lparr>requests = [[''a'']], waits = []\<rparr>)"
    by (subst batchLoop.simps) (simp add: f batchLoop_done)
  show ?thesis
    by (simp add: isBaseUrlExpired_def minutes_def BASE_URL_TTL_def photo_def
        Slideshow_refreshBaseUrls_def refresh_urls_def photosApi_refreshBaseUrls_def
        idle_service_def b)
qed

text \<open>
  Claim C3, as the code has it. A batch whose request ends in an error (the
  transport failure of the last attempt, "Max retries exceeded") ends the
  loop: the result of the loop is that error and its log is the log of that
  request, so no later batch is requested. The whole refresh then fails and
  changes no locator at all, neither in the list on screen nor in the store of
  the service. A batch that is answered without \<^verbatim>\<open>mediaItemResults\<close> (the
  JSON body of an error status that is not retried, say) adds nothing and the
  loop goes on with the next batch. After a successful refresh an item for
  which no locator (or an empty one) came back keeps the locator it had.
\<close>

theorem refreshBaseUrls_failed_batch:
  "(i < length ids \<and> fst (fetchWithRetry net (take 50 (drop i ids)) MAX_RETRIES s) = Inl e \<longrightarrow>
      batchLoop net ids i urlMap s
        = (Inl e, snd (fetchWithRetry net (take 50 (drop i ids)) MAX_RETRIES s)))
   \<and> (fst (batchLoop net (map item_id items) 0 Map.empty (log sv)) = Inl e \<longrightarrow>
        fst (Slideshow_refreshBaseUrls token net nowMain nowRenderer items (prev, sv)) = prev
        \<and> stored (snd (Slideshow_refreshBaseUrls token net nowMain nowRenderer items (prev, sv)))
            = stored sv)
   \<and> (i < length ids
        \<and> fst (fetchWithRetry net (take 50 (drop i ids)) MAX_RETRIES s) = Inr (status, Data None) \<longrightarrow>
        batchLoop net ids i urlMap s
          = batchLoop net ids (i + 50) urlMap
              (snd (fetchWithRetry net (take 50 (drop i ids)) MAX_RETRIES s)))
   \<and> (k < length prev
        \<and> (urls (item_id (prev ! k)) = None \<or> urls (item_id (prev ! k)) = Some []) \<longrightarrow>
        baseUrl (refreshed nowRenderer urls prev ! k) = baseUrl (prev ! k))"
proof -
  let ?r = "refresh_urls token net nowMain (map item_id items) sv"
  have 2: "fst (Slideshow_refreshBaseUrls token net nowMain nowRenderer items (prev, sv)) = prev
        \<and> stored (snd (Slideshow_refreshBaseUrls token net nowMain nowRenderer items (prev, sv)))
            = stored sv"
    if f: "fst (batchLoop net (map item_id items) 0 Map.empty (log sv)) = Inl e"
  proof -
    have "\<exists>x. fst ?r = Failed x"
    proof (cases "token = None \<or> token = Some []")
      case True
      then show ?thesis by (simp add: refresh_urls_no_token)
    next
      case False
      then show ?thesis by (simp add: refresh_urls_result f)
    qed
    then obtain x where x: "fst ?r = Failed x" ..
    from refresh_urls_failed [OF x] x show ?thesis
      by (simp add: Slideshow_refreshBaseUrls_fst Slideshow_refreshBaseUrls_snd)
  qed
  from 2 batchLoop_abort [of i ids net s e urlMap] batchLoop_skip [of i ids net s status urlMap]
    refreshed_kept [of k prev urls nowRenderer]
  show ?thesis by simp
qed

text \<open>The 52 ids, their first batch and the rest.\<close>

lemma take50_ids52:
  "take 50 (drop 0 ids52) =
    [''aa'', ''ab'', ''ac'', ''ad'', ''ae'', ''af'', ''ag'', ''ah'', ''ai'', ''aj'', ''ak'', ''al'', ''am'',
     ''an'', ''ao'', ''ap'', ''aq'', ''ar'', ''as'', ''at'', ''au'', ''av'', ''aw'', ''ax'', ''ay'', ''az'',
     ''ba'', ''bb'', ''bc'', ''bd'', ''be'', ''bf'', ''bg'', ''bh'', ''bi'', ''bj'', ''bk'', ''bl'', ''bm'',
     ''bn'', ''bo'', ''bp'', ''bq'', ''br'', ''bs'', ''bt'', ''bu'', ''bv'', ''bw'', ''bx'']"
  by (simp add: ids52_def)

lemma length_ids52: "length ids52 = 52"
  by (simp add: ids52_def)

lemma drop50_ids52: "drop 50 ids52 = [''by'', ''bz'']"
  by (simp add: ids52_def)

lemma flaky_fails:
  "fetchWithRetry flaky url MAX_RETRIES no_log
     = (Inl (TransportError ''down''), \<lparr>requests = [url, url, url], waits = [1000, 2000]\<rparr>)"
  by (simp add: fetchWithRetry_def fetchLoop.simps MAX_RETRIES_def INITIAL_DELAY_def flaky_def
      no_log_def sent_def waited_def)

text \<open>
  Against claim C3 as stated (the batches after a failed one are still
  requested): 52 ids, an upstream that is down for the three attempts of the
  first batch and up afterwards. The refresh fails after those three attempts;
  the second batch, \<open>by\<close> and \<open>bz\<close>, which the upstream would have served,
  is never requested.
\<close>

theorem refreshBaseUrls_failed_batch_counterexample:
  "batchLoop flaky ids52 0 Map.empty no_log
     = (Inl (TransportError ''down''),
        \<lparr>requests = [take 50 ids52, take 50 ids52, take 50 ids52], waits = [1000, 2000]\<rparr>)
   \<and> drop 50 ids52 = [''by'', ''bz'']
   \<and> [''by'', ''bz''] \<notin> set [take 50 ids52, take 50 ids52, take 50 ids52]
   \<and> flaky 3 [''by'', ''bz''] = fresh_urls 3 [''by'', ''bz'']"
proof -
  have "batchLoop flaky ids52 0 Map.empty no_log
     = (Inl (TransportError ''down''),
        \<lparr>requests = [take 50 ids52, take 50 ids52, take 50 ids52], waits = [1000, 2000]\<rparr>)"
    using batchLoop_abort [of 0 ids52 flaky no_log "TransportError ''down''" Map.empty]
    by (simp add: flaky_fails length_ids52)
  moreover have "[''by'', ''bz''] \<notin> set [take 50 ids52, take 50 ids52, take 50 ids52]"
    using take50_ids52 by simp
  ultimately show ?thesis by (simp add: drop50_ids52 flaky_def)
qed

text \<open>
  The theorem at the same failing run, at the failed refresh of one item on
  screen, at a batch answered 400 without results, and at an item for which
  nothing came back.
\<close>

theorem refreshBaseUrls_failed_batch_witness:
  "0 < length ids52
   \<and> fst (fetchWithRetry flaky (take 50 (drop 0 ids52)) MAX_RETRIES no_log) = Inl (TransportError ''down'')
   \<and> batchLoop flaky ids52 0 Map.empty no_log
       = (Inl (TransportError ''down''), snd (fetchWithRetry flaky (take 50 (drop 0 ids52)) MAX_RETRIES no_log))
   \<and> fst (batchLoop flaky (map item_id [photo ''a'' ''old'']) 0 Map.empty (log idle_service))
       = Inl (TransportError ''down'')
   \<and> fst (Slideshow_refreshBaseUrls (Some ''token'') flaky (minutes 51) (minutes 51)
            [photo ''a'' ''old''] ([photo ''a'' ''old''], idle_service)) = [photo ''a'' ''old'']
   \<and> fst (fetchWithRetry (always (Response 400 (Data None))) (take 50 (drop 0 [''a''])) MAX_RETRIES no_log)
       = Inr (400, Data None)
   \<and> batchLoop (always (Response 400 (Data None))) [''a''] 0 Map.empty no_log
       = batchLoop (always (Response 400 (Data None))) [''a''] (0 + 50) Map.empty
           (snd (fetchWithRetry (always (Response 400 (Data None))) (take 50 (drop 0 [''a''])) MAX_RETRIES no_log))
   \<and> Map.empty (item_id ([photo ''a'' ''old''] ! 0)) = None
   \<and> baseUrl (refreshed (minutes 51) Map.empty [photo ''a'' ''old''] ! 0) = ''old''"
proof -
  have a: "0 < length ids52 \<and>
      fst (fetchWithRetry flaky (take 50 (drop 0 ids52)) MAX_RETRIES no_log) = Inl (TransportError ''down'')"
    by (simp add: flaky_fails length_ids52)
  have b: "fst (batchLoop flaky (map item_id [photo ''a'' ''old'']) 0 Map.empty (log idle_service))
       = Inl (TransportError ''down'')"
    using batchLoop_abort [of 0 "[''a'']" flaky no_log "TransportError ''down''" Map.empty]
    by (simp add: flaky_fails photo_def idle_service_def)
  have c: "0 < length [''a''] \<and>
     fst (fetchWithRetry (always (Response 400 (Data None))) (take 50 (drop 0 [''a''])) MAX_RETRIES no_log)
       = Inr (400, Data None)"
    by (simp add: fetchWithRetry_def fetchLoop.simps MAX_RETRIES_def always_def no_log_def
        sent_def ok_def)
  have d: "0 < length [photo ''a'' ''old''] \<and> Map.empty (item_id ([photo ''a'' ''old''] ! 0)) = None"
    by simp
  from refreshBaseUrls_failed_batch [of 0 ids52 flaky no_log "TransportError ''down''" Map.empty
        "[photo ''a'' ''old'']" idle_service "Some ''token''" "minutes 51" "minutes 51"
        "[photo ''a'' ''old'']" 400 0 Map.empty] a b
    refreshBaseUrls_failed_batch [of 0 "[''a'']" "always (Response 400 (Data None))" no_log
        "TransportError ''down''" Map.empty "[]" idle_service None 0 "minutes 51"
        "[photo ''a'' ''old'']" 400 0 Map.empty] c d
  show ?thesis by (simp add: photo_def)
qed

section \<open>Properties of the image cache\<close>

text \<open>
  Unlinking by path removes exactly the file when the paths of the directory
  are distinct, and takes its size off the total.
\<close>

lemma unlink_removes:
  assumes "distinct (map file_path d)" "f \<in> set d"
  shows "filter (\<lambda>x. file_path x \<noteq> file_path f) d = filter (\<lambda>x. x \<noteq> f) d"
proof (rule filter_cong [OF refl])
  fix x assume "x \<in> set d"
  with assms show "(file_path x \<noteq> file_path f) = (x \<noteq> f)"
    by (auto simp: distinct_map inj_on_def)
qed

lemma diskSize_remove:
  "distinct d \<Longrightarrow> f \<in> set d \<Longrightarrow> diskSize (filter (\<lambda>x. x \<noteq> f) d) + file_size f = diskSize d"
proof (induction d)
  case Nil
  then show ?case by simp
next
  case (Cons a d)
  show ?case
  proof (cases "a = f")
    case True
    with Cons.prems have "f \<notin> set d" by simp
    then have "filter (\<lambda>x. x \<noteq> f) d = d" by (intro filter_True) auto
    with True show ?thesis by (simp add: diskSize_def)
  next
    case False
    with Cons have "diskSize (filter (\<lambda>x. x \<noteq> f) d) + file_size f = diskSize d" by simp
    with False show ?thesis by (simp add: diskSize_def)
  qed
qed

lemma filter_drop_removed:
  assumes "f \<notin> set fs"
  shows "filter (\<lambda>x. x \<in> set (drop j fs)) (filter (\<lambda>x. x \<noteq> f) d)
           = filter (\<lambda>x. x \<in> set (drop j fs)) d"
proof -
  have "x \<in> set (drop j fs) \<Longrightarrow> x \<noteq> f" for x
    using assms by (auto dest: in_set_dropD)
  then show ?thesis unfolding filter_filter by (intro filter_cong) auto
qed

lemma deleteLoop_suffix:
  assumes "distinct (map file_path d)" "distinct fs" "set fs = set d"
    "totalSize = deletedSize + diskSize d"
  shows "\<exists>k. deleteLoop unlocked capacity totalSize deletedSize fs d
               = filter (\<lambda>x. x \<in> set (drop k fs)) d
          \<and> 10 * diskSize (filter (\<lambda>x. x \<in> set (drop k fs)) d) \<le> 7 * capacity
          \<and> (\<forall>j<k. 7 * capacity < 10 * diskSize (filter (\<lambda>x. x \<in> set (drop j fs)) d))"
  using assms
proof (induction fs arbitrary: d deletedSize)
  case Nil
  then have "d = []" by simp
  then show ?case by (intro exI [of _ 0]) (simp add: diskSize_def)
next
  case (Cons f fs)
  have all: "filter (\<lambda>x. x \<in> set (drop 0 (f # fs))) d = d"
    using Cons.prems(3) by (simp add: filter_id_conv)
  have size: "totalSize - deletedSize = diskSize d" using Cons.prems(4) by simp
  show ?case
  proof (cases "10 * (totalSize - deletedSize) \<le> 7 * capacity")
    case True
    have "deleteLoop unlocked capacity totalSize deletedSize (f # fs) d
            = filter (\<lambda>x. x \<in> set (drop 0 (f # fs))) d
          \<and> 10 * diskSize (filter (\<lambda>x. x \<in> set (drop 0 (f # fs))) d) \<le> 7 * capacity
          \<and> (\<forall>j<0. 7 * capacity < 10 * diskSize (filter (\<lambda>x. x \<in> set (drop j (f # fs))) d))"
      using True size by (simp only: all) simp
    then show ?thesis by (rule exI [of _ 0])
  next
    case False
    let ?d' = "filter (\<lambda>x. x \<noteq> f) d"
    have fd: "f \<in> set d" using Cons.prems(3) by auto
    have fn: "f \<notin> set fs" using Cons.prems(2) by simp
    have dd: "distinct d" using Cons.prems(1) by (simp add: distinct_map)
    have step: "deleteLoop unlocked capacity totalSize deletedSize (f # fs) d
                  = deleteLoop unlocked capacity totalSize (deletedSize + file_size f) fs ?d'"
      using False unlink_removes [OF Cons.prems(1) fd] by (simp add: unlinkSync_def unlocked_def)
    have 1: "distinct (map file_path ?d')" using Cons.prems(1) by (rule distinct_map_filter)
    have 2: "distinct fs" using Cons.prems(2) by simp
    have 3: "set fs = set ?d'" using Cons.prems(3) fn by auto
    have 4: "totalSize = (deletedSize + file_size f) + diskSize ?d'"
      using diskSize_remove [OF dd fd] Cons.prems(4) by simp
    from Cons.IH [OF 1 2 3 4] obtain k where k:
      "deleteLoop unlocked capacity totalSize (deletedSize + file_size f) fs ?d'
               = filter (\<lambda>x. x \<in> set (drop k fs)) ?d'
          \<and> 10 * diskSize (filter (\<lambda>x. x \<in> set (drop k fs)) ?d') \<le> 7 * capacity
          \<and> (\<forall>j<k. 7 * capacity < 10 * diskSize (filter (\<lambda>x. x \<in> set (drop j fs)) ?d'))" ..
    note k' = k [unfolded filter_drop_removed [OF fn]]
    have a: "deleteLoop unlocked capacity totalSize deletedSize (f # fs) d
               = filter (\<lambda>x. x \<in> set (drop (Suc k) (f # fs))) d"
      by (simp only: step drop_Suc_Cons conjunct1 [OF k'])
    have b: "10 * diskSize (filter (\<lambda>x. x \<in> set (drop (Suc k) (f # fs))) d) \<le> 7 * capacity"
      using conjunct1 [OF conjunct2 [OF k']] by (simp only: drop_Suc_Cons)
    have c: "\<forall>j<Suc k. 7 * capacity < 10 * diskSize (filter (\<lambda>x. x \<in> set (drop j (f # fs))) d)"
    proof (intro allI impI)
      fix j assume j: "j < Suc k"
      show "7 * capacity < 10 * diskSize (filter (\<lambda>x. x \<in> set (drop j (f # fs))) d)"
      proof (cases j)
        case 0
        from False size have "7 * capacity < 10 * diskSize d" by simp
        with 0 show ?thesis by (simp only: all)
      next
        case (Suc j')
        with j have "j' < k" by simp
        with conjunct2 [OF conjunct2 [OF k']]
        have "7 * capacity < 10 * diskSize (filter (\<lambda>x. x \<in> set (drop j' fs)) d)" by blast
        with Suc show ?thesis by (simp only: drop_Suc_Cons)
      qed
    qed
    from a b c have "deleteLoop unlocked capacity totalSize deletedSize (f # fs) d
               = filter (\<lambda>x. x \<in> set (drop (Suc k) (f # fs))) d
          \<and> 10 * diskSize (filter (\<lambda>x. x \<in> set (drop (Suc k) (f # fs))) d) \<le> 7 * capacity
          \<and> (\<forall>j<Suc k. 7 * capacity < 10 * diskSize (filter (\<lambda>x. x \<in> set (drop j (f # fs))) d))"
      by (intro conjI)
    then show ?thesis by (rule exI [of _ "Suc k"])
  qed
qed

lemma keep_newest_0: "keep_newest 0 d = d"
  by (simp add: keep_newest_def filter_id_conv)

lemma cleanup_suffix:
  assumes "distinct (map file_path d)"
  shows "\<exists>k. cleanupCacheIfNeeded unlocked capacity d = keep_newest k d
          \<and> (diskSize d \<le> capacity \<longrightarrow> k = 0)
          \<and> (capacity < diskSize d \<longrightarrow> 10 * diskSize (keep_newest k d) \<le> 7 * capacity
                \<and> (\<forall>j<k. 7 * capacity < 10 * diskSize (keep_newest j d)))"
proof (cases "capacity < diskSize d")
  case False
  then have "cleanupCacheIfNeeded unlocked capacity d = keep_newest 0 d
          \<and> (diskSize d \<le> capacity \<longrightarrow> (0::nat) = 0)
          \<and> (capacity < diskSize d \<longrightarrow> 10 * diskSize (keep_newest 0 d) \<le> 7 * capacity
                \<and> (\<forall>j<0. 7 * capacity < 10 * diskSize (keep_newest j d)))"
    by (simp add: cleanupCacheIfNeeded_def keep_newest_0)
  then show ?thesis by (rule exI [of _ 0])
next
  case True
  have dd: "distinct d" using assms by (simp add: distinct_map)
  from deleteLoop_suffix [of d "sort_key mtime d" "diskSize d" 0 capacity] assms dd
  obtain k where k: "deleteLoop unlocked capacity (diskSize d) 0 (sort_key mtime d) d
               = filter (\<lambda>x. x \<in> set (drop k (sort_key mtime d))) d
          \<and> 10 * diskSize (filter (\<lambda>x. x \<in> set (drop k (sort_key mtime d))) d) \<le> 7 * capacity
          \<and> (\<forall>j<k. 7 * capacity < 10 * diskSize (filter (\<lambda>x. x \<in> set (drop j (sort_key mtime d))) d))"
    by auto
  with True have "cleanupCacheIfNeeded unlocked capacity d = keep_newest k d
          \<and> (diskSize d \<le> capacity \<longrightarrow> k = 0)
          \<and> (capacity < diskSize d \<longrightarrow> 10 * diskSize (keep_newest k d) \<le> 7 * capacity
                \<and> (\<forall>j<k. 7 * capacity < 10 * diskSize (keep_newest j d)))"
    by (simp add: cleanupCacheIfNeeded_def keep_newest_def)
  then show ?thesis by (rule exI [of _ k])
qed

lemma keep_newest_oldest_first:
  assumes "f \<in> set d" "f \<notin> set (keep_newest k d)" "g \<in> set (keep_newest k d)"
  shows "mtime f \<le> mtime g"
proof -
  let ?s = "sort_key mtime d"
  have g: "g \<in> set (drop k ?s)" using assms(3) by (simp add: keep_newest_def)
  have "f \<notin> set (drop k ?s)" using assms(1,2) by (simp add: keep_newest_def)
  moreover have "f \<in> set (take k ?s @ drop k ?s)" using assms(1) by simp
  ultimately have f: "f \<in> set (take k ?s)" by (simp only: set_append) blast
  have "sorted (map mtime (take k ?s @ drop k ?s))" by simp
  then have "\<forall>x \<in> set (map mtime (take k ?s)). \<forall>y \<in> set (map mtime (drop k ?s)). x \<le> y"
    by (simp only: map_append sorted_append) blast
  then have le: "\<forall>x \<in> mtime ` set (take k ?s). \<forall>y \<in> mtime ` set (drop k ?s). x \<le> y"
    by (simp only: set_map)
  have "mtime f \<in> mtime ` set (take k ?s)" using f by (rule imageI)
  moreover have "mtime g \<in> mtime ` set (drop k ?s)" using g by (rule imageI)
  ultimately show ?thesis using le by blast
qed

lemma diskSize_filter_le: "diskSize (filter P d) \<le> diskSize d"
  unfolding diskSize_def by (induction d) auto

lemma diskSize_keep_newest_le: "diskSize (keep_newest k d) \<le> diskSize d"
  unfolding keep_newest_def by (rule diskSize_filter_le)

lemma diskSize_append: "diskSize (d @ [f]) = diskSize d + file_size f"
  by (simp add: diskSize_def)

lemma keep_newest_paths:
  "distinct (map file_path d) \<Longrightarrow> distinct (map file_path (keep_newest k d))"
  unfolding keep_newest_def by (rule distinct_map_filter)

lemma keep_newest_exists: "existsSync p (keep_newest k d) \<Longrightarrow> existsSync p d"
  by (auto simp: existsSync_def keep_newest_def)

lemma cacheImage_hit:
  "existsSync (localPath item) d \<Longrightarrow> cacheImage locked capacity now download item d = (Inr (localPath item), d)"
  by (simp add: cacheImage_def)

lemma cacheImage_miss:
  "\<not> existsSync (localPath item) d \<Longrightarrow>
   snd (cacheImage locked capacity now (Some bytes) item d)
     = cleanupCacheIfNeeded locked capacity d
         @ [\<lparr>file_path = localPath item, file_size = bytes, mtime = now\<rparr>]"
  by (simp add: cacheImage_def Let_def)

lemma cacheImage_step:
  assumes "distinct (map file_path d)"
  shows "distinct (map file_path (snd (cacheImage unlocked capacity now (Some bytes) item d)))
    \<and> (diskSize d \<le> capacity + m \<longrightarrow> bytes \<le> m \<longrightarrow>
         diskSize (snd (cacheImage unlocked capacity now (Some bytes) item d)) \<le> capacity + m)"
proof (cases "existsSync (localPath item) d")
  case True
  with assms show ?thesis by (simp add: cacheImage_hit)
next
  case False
  from cleanup_suffix [OF assms, of capacity] obtain k where k:
    "cleanupCacheIfNeeded unlocked capacity d = keep_newest k d
          \<and> (diskSize d \<le> capacity \<longrightarrow> k = 0)
          \<and> (capacity < diskSize d \<longrightarrow> 10 * diskSize (keep_newest k d) \<le> 7 * capacity
                \<and> (\<forall>j<k. 7 * capacity < 10 * diskSize (keep_newest j d)))" ..
  have eq: "snd (cacheImage unlocked capacity now (Some bytes) item d)
     = keep_newest k d @ [\<lparr>file_path = localPath item, file_size = bytes, mtime = now\<rparr>]"
    using k by (simp add: cacheImage_miss [OF False])
  have "\<not> existsSync (localPath item) (keep_newest k d)"
    using False keep_newest_exists by blast
  then have 1: "distinct (map file_path (snd (cacheImage unlocked capacity now (Some bytes) item d)))"
    using keep_newest_paths [OF assms, of k] by (simp add: eq existsSync_def)
  have "diskSize (keep_newest k d) \<le> capacity"
  proof (cases "capacity < diskSize d")
    case True
    with k have "10 * diskSize (keep_newest k d) \<le> 7 * capacity" by simp
    then show ?thesis by simp
  next
    case False
    with diskSize_keep_newest_le [of k d] show ?thesis by simp
  qed
  then have 2: "diskSize d \<le> capacity + m \<longrightarrow> bytes \<le> m \<longrightarrow>
         diskSize (snd (cacheImage unlocked capacity now (Some bytes) item d)) \<le> capacity + m"
    by (simp add: eq diskSize_append)
  from 1 2 show ?thesis ..
qed

lemma puts_bound:
  "distinct (map file_path d) \<Longrightarrow> diskSize d \<le> capacity + m \<Longrightarrow>
   \<forall>p \<in> set ps. snd (snd p) \<le> m \<Longrightarrow>
   diskSize (puts capacity ps d) \<le> capacity + m"
proof (induction ps arbitrary: d)
  case Nil
  then show ?case by simp
next
  case (Cons p ps)
  obtain item now bytes where p: "p = (item, now, bytes)" by (cases p)
  let ?d' = "snd (cacheImage unlocked capacity now (Some bytes) item d)"
  from Cons.prems(3) p have b: "bytes \<le> m" by simp
  from cacheImage_step [OF Cons.prems(1), of capacity now bytes item m] Cons.prems(2) b
  have "distinct (map file_path ?d')" "diskSize ?d' \<le> capacity + m" by simp_all
  from Cons.IH [OF this] Cons.prems(3) show ?case by (simp add: p)
qed

text \<open>
  Claim C1, as the code has it. The cleanup runs before the download and
  tests the size that is on disk then. A put that misses (and whose unlinks
  all succeed) leaves the directory without its \<open>k\<close> oldest files, by
  modification time, followed by the new file, where \<open>k = 0\<close> when the size
  on disk was within the capacity, and otherwise \<open>k\<close> is the least number
  of oldest files whose removal brings the size down to 70% of the capacity.
  Every file that was removed is at least as old as every file that was kept.
  After the put the total is at most the capacity plus the size of the new
  file, and after any run of puts into the empty cache it is at most the
  capacity plus the largest size written: it is not bounded by the capacity.
\<close>

theorem cacheImage_capacity:
  assumes "distinct (map file_path d)" and "\<not> existsSync (localPath item) d"
  shows "\<exists>k. snd (cacheImage unlocked capacity now (Some bytes) item d)
            = keep_newest k d @ [\<lparr>file_path = localPath item, file_size = bytes, mtime = now\<rparr>]
       \<and> (diskSize d \<le> capacity \<longrightarrow> k = 0)
       \<and> (capacity < diskSize d \<longrightarrow>
            10 * diskSize (keep_newest k d) \<le> 7 * capacity
            \<and> (\<forall>j<k. 7 * capacity < 10 * diskSize (keep_newest j d)))
       \<and> (\<forall>f \<in> set d. \<forall>g \<in> set (keep_newest k d). f \<notin> set (keep_newest k d) \<longrightarrow> mtime f \<le> mtime g)
       \<and> diskSize (snd (cacheImage unlocked capacity now (Some bytes) item d)) \<le> capacity + bytes
       \<and> ((\<forall>p \<in> set ps. snd (snd p) \<le> m) \<longrightarrow> diskSize (puts capacity ps []) \<le> capacity + m)"
proof -
  from cleanup_suffix [OF assms(1), of capacity] obtain k where k:
    "cleanupCacheIfNeeded unlocked capacity d = keep_newest k d
          \<and> (diskSize d \<le> capacity \<longrightarrow> k = 0)
          \<and> (capacity < diskSize d \<longrightarrow> 10 * diskSize (keep_newest k d) \<le> 7 * capacity
                \<and> (\<forall>j<k. 7 * capacity < 10 * diskSize (keep_newest j d)))" ..
  have 1: "snd (cacheImage unlocked capacity now (Some bytes) item d)
            = keep_newest k d @ [\<lparr>file_path = localPath item, file_size = bytes, mtime = now\<rparr>]"
    using k by (simp add: cacheImage_miss [OF assms(2)])
  have 2: "\<forall>f \<in> set d. \<forall>g \<in> set (keep_newest k d). f \<notin> set (keep_newest k d) \<longrightarrow> mtime f \<le> mtime g"
    using keep_newest_oldest_first by blast
  have "diskSize (keep_newest k d) \<le> capacity"
  proof (cases "capacity < diskSize d")
    case True
    with k have "10 * diskSize (keep_newest k d) \<le> 7 * capacity" by simp
    then show ?thesis by simp
  next
    case False
    with diskSize_keep_newest_le [of k d] show ?thesis by simp
  qed
  then have 3: "diskSize (snd (cacheImage unlocked capacity now (Some bytes) item d)) \<le> capacity + bytes"
    by (simp add: 1 diskSize_append)
  have 4: "(\<forall>p \<in> set ps. snd (snd p) \<le> m) \<longrightarrow> diskSize (puts capacity ps []) \<le> capacity + m"
    using puts_bound [of "[]" capacity m ps] by (simp add: diskSize_def)
  note k2 = conjunct1 [OF conjunct2 [OF k]] and k3 = conjunct2 [OF conjunct2 [OF k]]
  from 1 k2 k3 2 3 4 have "snd (cacheImage unlocked capacity now (Some bytes) item d)
            = keep_newest k d @ [\<lparr>file_path = localPath item, file_size = bytes, mtime = now\<rparr>]
       \<and> (diskSize d \<le> capacity \<longrightarrow> k = 0)
       \<and> (capacity < diskSize d \<longrightarrow>
            10 * diskSize (keep_newest k d) \<le> 7 * capacity
            \<and> (\<forall>j<k. 7 * capacity < 10 * diskSize (keep_newest j d)))
       \<and> (\<forall>f \<in> set d. \<forall>g \<in> set (keep_newest k d). f \<notin> set (keep_newest k d) \<longrightarrow> mtime f \<le> mtime g)
       \<and> diskSize (snd (cacheImage unlocked capacity now (Some bytes) item d)) \<le> capacity + bytes
       \<and> ((\<forall>p \<in> set ps. snd (snd p) \<le> m) \<longrightarrow> diskSize (puts capacity ps []) \<le> capacity + m)"
    by (intro conjI)
  then show ?thesis by (rule exI [of _ k])
qed

text \<open>
  The scenario: with capacity 1000 the cleanup before D's put sees 900 bytes
  and removes nothing.
\<close>

lemma scenario_puts:
  "puts 1000 (scenario 300) [] = [entry ''A'' 300 1, entry ''B'' 300 2, entry ''C'' 300 3, entry ''D'' 300 4]"
  by (simp add: scenario_def cacheImage_def cleanupCacheIfNeeded_def diskSize_def existsSync_def
      localPath_def extension_def photo_def entry_def)

lemma scenario_puts_source:
  "puts MAX_CACHE_SIZE (scenario 157286400) []
     = [entry ''A'' 157286400 1, entry ''B'' 157286400 2, entry ''C'' 157286400 3, entry ''D'' 157286400 4]"
  by (simp add: scenario_def cacheImage_def cleanupCacheIfNeeded_def diskSize_def existsSync_def
      localPath_def extension_def photo_def entry_def MAX_CACHE_SIZE_def)

text \<open>
  Against claim C1 as stated (after the puts the total is at most the
  capacity, and A has been evicted after D's put): after the four puts all
  four files are on disk, 1200 bytes against the capacity 1000; and with the
  capacity of the source, 500 MB, four files of 150 MB leave 600 MB on disk.
\<close>

theorem cacheImage_capacity_counterexample:
  "diskSize (puts 1000 (scenario 300) []) = 1200
   \<and> existsSync ''A.jpeg'' (puts 1000 (scenario 300) [])
   \<and> MAX_CACHE_SIZE = 524288000
   \<and> diskSize (puts MAX_CACHE_SIZE (scenario 157286400) []) = 629145600
   \<and> existsSync ''A.jpeg'' (puts MAX_CACHE_SIZE (scenario 157286400) [])"
proof -
  have a: "diskSize (puts 1000 (scenario 300) []) = 1200
      \<and> existsSync ''A.jpeg'' (puts 1000 (scenario 300) [])"
    by (simp add: scenario_puts diskSize_def existsSync_def entry_def)
  have b: "diskSize (puts MAX_CACHE_SIZE (scenario 157286400) []) = 629145600
      \<and> existsSync ''A.jpeg'' (puts MAX_CACHE_SIZE (scenario 157286400) [])"
    by (simp only: scenario_puts_source) (simp add: diskSize_def existsSync_def entry_def)
  have c: "MAX_CACHE_SIZE = 524288000" by (simp add: MAX_CACHE_SIZE_def)
  from a b c show ?thesis by (intro conjI) (simp_all only: simp_thms)
qed

text \<open>
  The theorem at the fifth put of the scenario: E is written after the
  cleanup has seen 1200 bytes and removed A and B.
\<close>

theorem cacheImage_capacity_witness:
  "distinct (map file_path (puts 1000 (scenario 300) []))
   \<and> \<not> existsSync (localPath (photo ''E'' ''u'')) (puts 1000 (scenario 300) [])
   \<and> snd (cacheImage unlocked 1000 5 (Some 300) (photo ''E'' ''u'') (puts 1000 (scenario 300) []))
       = [entry ''C'' 300 3, entry ''D'' 300 4, entry ''E'' 300 5]
   \<and> diskSize (snd (cacheImage unlocked 1000 5 (Some 300) (photo ''E'' ''u'') (puts 1000 (scenario 300) [])))
       \<le> 1000 + 300
   \<and> diskSize (puts 1000 (scenario 300) []) \<le> 1000 + 300"
proof -
  have a: "distinct (map file_path (puts 1000 (scenario 300) []))"
    by (simp add: scenario_puts entry_def)
  have b: "\<not> existsSync (localPath (photo ''E'' ''u'')) (puts 1000 (scenario 300) [])"
    by (simp add: scenario_puts entry_def existsSync_def localPath_def extension_def photo_def)
  have c: "\<forall>p \<in> set (scenario 300). snd (snd p) \<le> 300"
    by (simp add: scenario_def)
  have e: "snd (cacheImage unlocked 1000 5 (Some 300) (photo ''E'' ''u'') (puts 1000 (scenario 300) []))
       = [entry ''C'' 300 3, entry ''D'' 300 4, entry ''E'' 300 5]"
    by (simp add: scenario_puts cacheImage_def cleanupCacheIfNeeded_def diskSize_def existsSync_def
      localPath_def extension_def photo_def entry_def unlinkSync_def unlocked_def)
  from cacheImage_capacity [OF a b, of 1000 5 300 "scenario 300" 300] a b c e
  show ?thesis by auto
qed

section \<open>Properties of the schedule check\<close>

text \<open>
  Claim C6, as the code has it. When the schedule reads false after it read
  true, while the slideshow is showing, the check sends the stop signal from
  both of its guards, the one for a slideshow that runs outside the schedule
  and the one for a changed state: two equal messages, not one. The renderer
  leaves the slideshow on the first and ignores the second, so the engine is
  idle afterwards and the last state is false; a further false reading then
  sends nothing and changes nothing. The first guard does not look at the
  last state: while the slideshow is running, a false reading sends a stop
  signal also when the state did not change.
\<close>

theorem checkSchedule_stop_signal:
  assumes "mainWindow (main a)" and "enabled sch"
    and "\<not> shouldPlayAt sch day hour" and "\<not> shouldPlayAt sch day' hour'"
    and "lastScheduleState (main a) = Some True" and "showing a"
  shows "snd (scheduleTick (Some sch) day hour a) = [False, False]
    \<and> idle (fst (scheduleTick (Some sch) day hour a))
    \<and> lastScheduleState (main (fst (scheduleTick (Some sch) day hour a))) = Some False
    \<and> scheduleTick (Some sch) day' hour' (fst (scheduleTick (Some sch) day hour a))
        = (fst (scheduleTick (Some sch) day hour a), [])
    \<and> snd (checkSchedule (Some sch) day hour ((main a)\<lparr>lastScheduleState := Some False\<rparr>)) = [False]"
  using assms
  by (simp add: scheduleTick_def checkSchedule_def scheduleStateChanged_def showing_def idle_def
      Let_def)

text \<open>
  The theorem at a slideshow that runs inside its schedule when the schedule
  turns to a grid that never plays: Wednesday, 10 and 11 o'clock.
\<close>

theorem checkSchedule_stop_signal_witness:
  "mainWindow (main playing_app) \<and> enabled never
   \<and> \<not> shouldPlayAt never 3 10 \<and> \<not> shouldPlayAt never 3 11
   \<and> lastScheduleState (main playing_app) = Some True \<and> showing playing_app
   \<and> snd (scheduleTick (Some never) 3 10 playing_app) = [False, False]
   \<and> idle (fst (scheduleTick (Some never) 3 10 playing_app))
   \<and> snd (scheduleTick (Some never) 3 11 (fst (scheduleTick (Some never) 3 10 playing_app))) = []"
proof -
  have h: "mainWindow (main playing_app)" "enabled never"
    "\<not> shouldPlayAt never 3 10" "\<not> shouldPlayAt never 3 11"
    "lastScheduleState (main playing_app) = Some True" "showing playing_app"
    by (simp_all add: playing_app_def never_def shouldPlayAt_def dayIndex_def showing_def)
  from checkSchedule_stop_signal [OF h] h show ?thesis by simp
qed

text \<open>
  Against claim C6 as stated (exactly one stop signal on the change from true
  to false while showing): the check sends two.
\<close>

theorem checkSchedule_stop_signal_counterexample:
  "showing playing_app \<and> lastScheduleState (main playing_app) = Some True
   \<and> \<not> shouldPlayAt never 3 10
   \<and> snd (checkSchedule (Some never) 3 10 (main playing_app)) = [False, False]"
  by (simp add: playing_app_def never_def shouldPlayAt_def dayIndex_def showing_def
      checkSchedule_def)

section \<open>Properties of the slideshow\<close>

text \<open>
  A transition started by a closure of the current render, from rest: what
  is pending after the trigger, and the state after its two timeouts.
\<close>

lemma transitionTo_current:
  assumes "at_rest st" "0 < length (mediaItems st)"
  shows "runTimeout (runTimeout (transitionTo (current st) n st))
           = st\<lparr>currentIndex := n, previousIndex := None, isTransitioning := False,
                clock := clock st + 50
                   + (if transitionEffect st = NoEffect then 0 else 500), timeouts := []\<rparr>"
  using assms
  by (simp add: transitionTo_def current_def setTimeout_def runTimeout_def at_rest_def Let_def max_def)

lemma transitionTo_pending:
  assumes "at_rest st" "0 < length (mediaItems st)"
  shows "timeouts (transitionTo (current st) n st)
           = [(clock st + 50, SetCurrentIndex n (if transitionEffect st = NoEffect then 0 else 500))]
         \<and> isTransitioning (transitionTo (current st) n st)"
  using assms
  by (simp add: transitionTo_def current_def setTimeout_def at_rest_def Let_def)

lemma transitionTo_dropped:
  "isTransitioning st \<Longrightarrow> transitionTo (current st) n st = st"
  by (simp add: transitionTo_def current_def)

lemma next_index:
  "in_range st \<Longrightarrow>
   js_rem (currentIndex st + 1) (int (length (mediaItems st)))
     = (currentIndex st + 1) mod int (length (mediaItems st))"
  by (simp add: js_rem_def in_range_def)

lemma completed_next:
  assumes "at_rest st" "in_range st"
  shows "completed ClickNext st
           = st\<lparr>currentIndex := (currentIndex st + 1) mod int (length (mediaItems st)),
                previousIndex := None, isTransitioning := False,
                clock := clock st + 50
                   + (if transitionEffect st = NoEffect then 0 else 500), timeouts := []\<rparr>"
proof -
  from assms(2) have l: "0 < length (mediaItems st)" by (auto simp: in_range_def)
  have c: "seen_currentIndex (current st) = currentIndex st"
    "seen_length (current st) = length (mediaItems st)" by (simp_all add: current_def)
  show ?thesis
    by (simp only: completed_def handle.simps goToNext_def c next_index [OF assms(2)]
        transitionTo_current [OF assms(1) l])
qed

lemma completed_next_keeps:
  assumes "at_rest st" "in_range st"
  shows "at_rest (completed ClickNext st) \<and> in_range (completed ClickNext st)
     \<and> mediaItems (completed ClickNext st) = mediaItems st"
proof -
  from assms(2) have "0 < int (length (mediaItems st))" unfolding in_range_def by linarith
  then have "0 \<le> (currentIndex st + 1) mod int (length (mediaItems st))
      \<and> (currentIndex st + 1) mod int (length (mediaItems st)) < int (length (mediaItems st))"
    by (simp only: pos_mod_sign pos_mod_bound simp_thms)
  then show ?thesis by (simp add: completed_next [OF assms] at_rest_def in_range_def)
qed

lemma nexts:
  assumes "at_rest st" "in_range st"
  shows "at_rest ((completed ClickNext ^^ n) st) \<and> in_range ((completed ClickNext ^^ n) st)
     \<and> mediaItems ((completed ClickNext ^^ n) st) = mediaItems st
     \<and> currentIndex ((completed ClickNext ^^ n) st)
         = (currentIndex st + int n) mod int (length (mediaItems st))"
proof (induction n)
  case 0
  from assms(2) show ?case using assms(1) by (simp add: in_range_def)
next
  case (Suc n)
  let ?s = "(completed ClickNext ^^ n) st"
  from Suc have a: "at_rest ?s" and r: "in_range ?s" and m: "mediaItems ?s = mediaItems st"
    and i: "currentIndex ?s = (currentIndex st + int n) mod int (length (mediaItems st))"
    by simp_all
  have "currentIndex (completed ClickNext ?s)
          = (currentIndex ?s + 1) mod int (length (mediaItems ?s))"
    by (simp add: completed_next [OF a r])
  also have "\<dots> = (currentIndex st + int n + 1) mod int (length (mediaItems st))"
    by (simp only: i m mod_add_left_eq)
  also have "currentIndex st + int n + 1 = currentIndex st + int (Suc n)" by simp
  finally show ?case using completed_next_keeps [OF a r] m by simp
qed

text \<open>
  Advances by closures of the current render (the on-screen button; the
  timer and the events of the media element compute the same index). Each
  completed advance moves the cursor from \<open>i\<close> to \<open>(i + 1) mod L\<close>, the cursor
  is an index of the list after every one of them, and \<open>L\<close> of them bring it
  back to where it started. The list is arbitrary, so this holds for each of
  the orders \<^verbatim>\<open>loadMediaItems\<close> can apply and any outcome of the shuffle.
\<close>

lemma click_next_wrap_around:
  assumes "at_rest st" "in_range st"
  shows "currentIndex (completed ClickNext st)
           = (currentIndex st + 1) mod int (length (mediaItems st))"
    and "currentIndex ((completed ClickNext ^^ length (mediaItems st)) st) = currentIndex st"
    and "in_range ((completed ClickNext ^^ n) st)"
proof -
  show "currentIndex (completed ClickNext st)
           = (currentIndex st + 1) mod int (length (mediaItems st))"
    by (simp add: completed_next [OF assms])
  have "currentIndex ((completed ClickNext ^^ length (mediaItems st)) st)
          = (currentIndex st + int (length (mediaItems st))) mod int (length (mediaItems st))"
    using nexts [OF assms] by simp
  also have "\<dots> = currentIndex st" using assms(2) by (simp add: in_range_def)
  finally show "currentIndex ((completed ClickNext ^^ length (mediaItems st)) st) = currentIndex st" .
  show "in_range ((completed ClickNext ^^ n) st)" using nexts [OF assms] by simp
qed

lemma click_next_wrap_around_loaded:
  assumes "sortedItems order shuffle allMediaItems \<noteq> []"
  shows "currentIndex ((completed ClickNext ^^ length (sortedItems order shuffle allMediaItems))
                      (loadMediaItems order shuffle effect allMediaItems)) = 0"
    and "in_range ((completed ClickNext ^^ n) (loadMediaItems order shuffle effect allMediaItems))"
proof -
  let ?l = "loadMediaItems order shuffle effect allMediaItems"
  have a: "at_rest ?l" by (simp add: loadMediaItems_def loaded_def at_rest_def)
  have r: "in_range ?l" using assms by (simp add: loadMediaItems_def loaded_def in_range_def)
  have m: "mediaItems ?l = sortedItems order shuffle allMediaItems" "currentIndex ?l = 0"
    by (simp_all add: loadMediaItems_def loaded_def)
  from click_next_wrap_around(2) [OF a r]
  show "currentIndex ((completed ClickNext ^^ length (sortedItems order shuffle allMediaItems)) ?l) = 0"
    by (simp add: m)
  from click_next_wrap_around(3) [OF a r] show "in_range ((completed ClickNext ^^ n) ?l)" .
qed

lemma sorted_three: "sortedItems Oldest id three = three"
  by (simp add: sortedItems_def three_def photo_def)

text \<open>
  Claim C8 fails for \<^verbatim>\<open>next()\<close> called by the key \<^verbatim>\<open>ArrowRight\<close>. The
  keydown listener keeps the \<^verbatim>\<open>goToNext\<close> of the render in which the items
  were loaded, where the index is 0, so every advance it triggers computes
  \<open>(0 + 1) mod L\<close> instead of \<open>(index + 1) mod L\<close>. Three photos are loaded
  (\<open>L = 3\<close>, cursor at 0). Each key press below arrives at rest and its
  transition is completed before the next one; the cursor goes 1, 1, 1 and
  after \<open>L\<close> advances it is at 1, not back at 0. The same three advances by the
  on-screen button go 1, 2, 0.
\<close>

theorem keydown_no_wrap_around:
  "length (mediaItems (loadMediaItems Oldest id Fade three)) = 3
   \<and> currentIndex (loadMediaItems Oldest id Fade three) = 0
   \<and> at_rest (loadMediaItems Oldest id Fade three)
   \<and> currentIndex (completed KeyArrowRight (loadMediaItems Oldest id Fade three)) = 1
   \<and> at_rest (completed KeyArrowRight (loadMediaItems Oldest id Fade three))
   \<and> currentIndex (completed KeyArrowRight (completed KeyArrowRight
        (loadMediaItems Oldest id Fade three))) = 1
   \<and> at_rest (completed KeyArrowRight (completed KeyArrowRight
        (loadMediaItems Oldest id Fade three)))
   \<and> currentIndex (completed KeyArrowRight (completed KeyArrowRight (completed KeyArrowRight
        (loadMediaItems Oldest id Fade three)))) = 1
   \<and> at_rest (completed KeyArrowRight (completed KeyArrowRight (completed KeyArrowRight
        (loadMediaItems Oldest id Fade three))))
   \<and> currentIndex (completed ClickNext (loadMediaItems Oldest id Fade three)) = 1
   \<and> currentIndex (completed ClickNext (completed ClickNext
        (loadMediaItems Oldest id Fade three))) = 2
   \<and> currentIndex (completed ClickNext (completed ClickNext (completed ClickNext
        (loadMediaItems Oldest id Fade three)))) = 0"
  by code_simp

lemma completed_current:
  assumes "at_rest st" "in_range st"
  shows "runTimeout (runTimeout (transitionTo (current st)
            (js_rem (seen_currentIndex (current st) + 1) (int (seen_length (current st)))) st))
           = st\<lparr>currentIndex := (currentIndex st + 1) mod int (length (mediaItems st)),
                previousIndex := None, isTransitioning := False,
                clock := clock st + 50
                   + (if transitionEffect st = NoEffect then 0 else 500), timeouts := []\<rparr>"
proof -
  from assms(2) have l: "0 < length (mediaItems st)" by (auto simp: in_range_def)
  have c: "seen_currentIndex (current st) = currentIndex st"
    "seen_length (current st) = length (mediaItems st)" by (simp_all add: current_def)
  show ?thesis
    by (simp only: c next_index [OF assms(2)] transitionTo_current [OF assms(1) l])
qed

text \<open>
  Claim C9. While the component is at rest and the cursor is an index of the
  list: when playback is paused a video-end event changes nothing, but a
  load-timeout event still starts a transition, which ends at
  \<open>(index + 1) mod length\<close>; when playback is not paused both events advance
  to \<open>(index + 1) mod length\<close>.
\<close>

theorem pause_asymmetry:
  assumes "at_rest st" and "in_range st"
  shows "(\<not> isPlaying st \<longrightarrow> handle VideoEnd st = st)
    \<and> (\<not> isPlaying st \<longrightarrow>
         currentIndex (completed LoadTimeout st)
           = (currentIndex st + 1) mod int (length (mediaItems st))
         \<and> isTransitioning (handle LoadTimeout st))
    \<and> (isPlaying st \<longrightarrow>
         currentIndex (completed VideoEnd st)
           = (currentIndex st + 1) mod int (length (mediaItems st))
         \<and> currentIndex (completed LoadTimeout st)
           = (currentIndex st + 1) mod int (length (mediaItems st)))"
proof -
  from assms(2) have l: "0 < length (mediaItems st)" by (auto simp: in_range_def)
  have s: "seen_isPlaying (current st) = isPlaying st"
    "seen_length (current st) = length (mediaItems st)" by (simp_all add: current_def)
  have 1: "\<not> isPlaying st \<longrightarrow> handle VideoEnd st = st"
    by (simp add: handleVideoEnd_def s)
  have lt: "handle LoadTimeout st = transitionTo (current st)
            (js_rem (seen_currentIndex (current st) + 1) (int (seen_length (current st)))) st"
    using l by (simp add: handleLoadTimeout_def s)
  have 2: "currentIndex (completed LoadTimeout st)
           = (currentIndex st + 1) mod int (length (mediaItems st))"
    by (simp only: completed_def lt completed_current [OF assms]) simp
  have 3: "isTransitioning (handle LoadTimeout st)"
    using transitionTo_pending [OF assms(1) l] by (simp only: lt)
  have 4: "isPlaying st \<longrightarrow> currentIndex (completed VideoEnd st)
           = (currentIndex st + 1) mod int (length (mediaItems st))"
  proof
    assume "isPlaying st"
    with l have "handle VideoEnd st = transitionTo (current st)
            (js_rem (seen_currentIndex (current st) + 1) (int (seen_length (current st)))) st"
      by (simp add: handleVideoEnd_def s)
    then show "currentIndex (completed VideoEnd st)
           = (currentIndex st + 1) mod int (length (mediaItems st))"
      by (simp only: completed_def completed_current [OF assms]) simp
  qed
  from 1 2 3 4 show ?thesis by simp
qed

text \<open>The theorem at three photos, paused and playing.\<close>

theorem pause_asymmetry_witness:
  "at_rest (handle TogglePause (loadMediaItems Oldest id Fade three))
   \<and> in_range (handle TogglePause (loadMediaItems Oldest id Fade three))
   \<and> \<not> isPlaying (handle TogglePause (loadMediaItems Oldest id Fade three))
   \<and> handle VideoEnd (handle TogglePause (loadMediaItems Oldest id Fade three))
       = handle TogglePause (loadMediaItems Oldest id Fade three)
   \<and> currentIndex (completed LoadTimeout (handle TogglePause (loadMediaItems Oldest id Fade three))) = 1
   \<and> isPlaying (loadMediaItems Oldest id Fade three)
   \<and> currentIndex (completed VideoEnd (loadMediaItems Oldest id Fade three)) = 1"
proof -
  let ?l = "loadMediaItems Oldest id Fade three"
  let ?p = "handle TogglePause ?l"
  have a: "at_rest ?l" "in_range ?l" "isPlaying ?l" "currentIndex ?l = 0" "length (mediaItems ?l) = 3"
    by (simp_all add: loadMediaItems_def loaded_def at_rest_def in_range_def sorted_three)
      (simp_all add: three_def)
  have b: "at_rest ?p" "in_range ?p" "\<not> isPlaying ?p" "currentIndex ?p = 0" "length (mediaItems ?p) = 3"
    by (simp_all add: togglePlayPause_def loadMediaItems_def loaded_def at_rest_def in_range_def
        sorted_three) (simp_all add: three_def)
  from pause_asymmetry [OF a(1,2)] pause_asymmetry [OF b(1,2)] a b
  show ?thesis by simp
qed

text \<open>
  The guard of \<^verbatim>\<open>transitionTo\<close> drops every trigger whose closure belongs
  to the current render while a transition is under way, and a video-end
  event and a timer tick at the same index lead to one advance, in either
  order.
\<close>

lemma debounce_current:
  assumes "isTransitioning st"
  shows "handle TimerFire st = st \<and> handle VideoEnd st = st \<and> handle LoadTimeout st = st
    \<and> handle ClickNext st = st \<and> handle ClickPrevious st = st"
  using assms transitionTo_dropped [OF assms]
  by (simp add: timerFire_def handleVideoEnd_def handleLoadTimeout_def goToNext_def
      goToPrevious_def)

lemma video_end_and_timer:
  assumes "at_rest st" "in_range st" "isPlaying st"
  shows "length (timeouts (handle TimerFire (handle VideoEnd st))) = 1
    \<and> length (timeouts (handle VideoEnd (handle TimerFire st))) = 1
    \<and> currentIndex (runTimeout (runTimeout (handle TimerFire (handle VideoEnd st))))
        = (currentIndex st + 1) mod int (length (mediaItems st))
    \<and> currentIndex (runTimeout (runTimeout (handle VideoEnd (handle TimerFire st))))
        = (currentIndex st + 1) mod int (length (mediaItems st))"
proof -
  from assms(2) have l: "0 < length (mediaItems st)" by (auto simp: in_range_def)
  let ?n = "js_rem (seen_currentIndex (current st) + 1) (int (seen_length (current st)))"
  let ?t = "transitionTo (current st) ?n st"
  have s: "seen_isPlaying (current st) = isPlaying st"
    "seen_length (current st) = length (mediaItems st)"
    "seen_currentIndex (current st) = currentIndex st" by (simp_all add: current_def)
  have v: "handle VideoEnd st = ?t" using l assms(3) by (simp add: handleVideoEnd_def s)
  have tr: "isTransitioning ?t" and tt: "length (timeouts ?t) = 1"
    using transitionTo_pending [OF assms(1) l, of ?n] by simp_all
  have fin: "currentIndex (runTimeout (runTimeout ?t))
        = (currentIndex st + 1) mod int (length (mediaItems st))"
    by (simp only: completed_current [OF assms(1,2)]) simp
  have a: "handle TimerFire (handle VideoEnd st) = ?t"
    using debounce_current [OF tr] by (simp only: v)
  have b: "handle VideoEnd (handle TimerFire st) = ?t"
  proof (cases "isCurrentVideo st")
    case True
    then have "handle TimerFire st = st" by (simp add: timerFire_def)
    with v show ?thesis by simp
  next
    case False
    with assms l have "handle TimerFire st = ?t"
      by (simp add: timerFire_def at_rest_def s)
    with debounce_current [OF tr] show ?thesis by simp
  qed
  from a b tt fin show ?thesis by simp
qed

text \<open>
  Claim C7 fails for the arrow keys. The keydown listener is registered by an
  effect whose only dependency is \<^verbatim>\<open>mediaItems.length\<close>, so it keeps the
  closures of the render in which the items were loaded, where the index is 0
  and no transition is under way. In \<open>mid_transition\<close> the third photo is on
  screen and the transition to it is under way. The button \<^verbatim>\<open>next\<close> is
  dropped there; the key \<^verbatim>\<open>ArrowRight\<close> passes the guard, sets a second
  timeout beside the pending one, and when the timeouts have run the cursor is
  at 1, not at 2.
\<close>

theorem keydown_not_debounced:
  "isTransitioning mid_transition
   \<and> currentIndex mid_transition = 2
   \<and> handle ClickNext mid_transition = mid_transition
   \<and> handle KeyArrowRight mid_transition \<noteq> mid_transition
   \<and> timeouts (handle KeyArrowRight mid_transition)
       = [(1100, EndTransition), (650, SetCurrentIndex 1 500)]
   \<and> currentIndex (handle Timeout (handle Timeout (handle Timeout
        (handle KeyArrowRight mid_transition)))) = 1"
  by code_simp

end
